theory Spec2Isabelle
  imports Main
begin

section \<open>Python values: errors, list indexing, loops\<close>

text \<open>
  The notebook \<^verbatim>\<open>xALogic.ipynb\<close> keeps a circuit in two parallel Python lists.
  Every Python exception the modelled functions can raise is a value of \<open>error\<close>;
  a function that may raise returns \<open>error + 'a\<close>, with \<open>Inl\<close> for the exception.
  \<open>RecursionError\<close> is what the interpreter raises when the recursion of
  \<^verbatim>\<open>is_satisfiable\<close> or \<^verbatim>\<open>Pi\<close> exceeds its recursion limit; the limit is the
  fuel argument of the two functions.
\<close>

datatype error = IndexError | ValueError | RecursionError

definition err_bind :: "error + 'a \<Rightarrow> ('a \<Rightarrow> error + 'b) \<Rightarrow> error + 'b" where
  "err_bind m f = (case m of Inl e \<Rightarrow> Inl e | Inr x \<Rightarrow> f x)"

text \<open>
  \<^verbatim>\<open>xs[i]\<close>: a negative index counts from the end of the list, and an index outside
  the list raises \<^verbatim>\<open>IndexError\<close>.
\<close>

definition py_get :: "'a list \<Rightarrow> int \<Rightarrow> error + 'a" where
  "py_get xs i =
     (if 0 \<le> i \<and> i < int (length xs) then Inr (xs ! nat i)
      else if i < 0 \<and> - int (length xs) \<le> i then Inr (xs ! nat (int (length xs) + i))
      else Inl IndexError)"

text \<open>
  \<^verbatim>\<open>for i in ...: body\<close> over a fixed sequence of indices, threading the variables
  the body assigns; the first exception ends the loop.
\<close>

fun for_loop :: "'i list \<Rightarrow> ('i \<Rightarrow> 's \<Rightarrow> error + 's) \<Rightarrow> 's \<Rightarrow> error + 's" where
  "for_loop [] body s = Inr s"
| "for_loop (i # rest) body s = err_bind (body i s) (for_loop rest body)"

section \<open>Python strings: \<^verbatim>\<open>strip\<close>, \<^verbatim>\<open>split(' ')\<close>, \<^verbatim>\<open>int\<close>, \<^verbatim>\<open>str\<close>\<close>

text \<open>
  Strings are lists of 8-bit characters, so only the ASCII part of Python's \<^verbatim>\<open>str\<close>
  is covered. \<^verbatim>\<open>str.strip()\<close> removes the characters for which \<^verbatim>\<open>isspace()\<close> holds:
  tab to carriage return, the four separators \<^verbatim>\<open>0x1c\<close> to \<^verbatim>\<open>0x1f\<close>, and space.
  \<^verbatim>\<open>int\<close> skips less around the number: tab to carriage return and space only, so
  that \<^verbatim>\<open>int('\x1c1')\<close> raises \<^verbatim>\<open>ValueError\<close>. The digits of \<^verbatim>\<open>int\<close> are \<^verbatim>\<open>0\<close> to
  \<^verbatim>\<open>9\<close>. The interpreter's bound on the number of digits that \<^verbatim>\<open>int\<close> and \<^verbatim>\<open>str\<close>
  convert is not modelled.
\<close>

definition is_space :: "char \<Rightarrow> bool" where
  "is_space c = (let k = of_char c :: nat in (9 \<le> k \<and> k \<le> 13) \<or> (28 \<le> k \<and> k \<le> 32))"

definition strip :: "string \<Rightarrow> string" where
  "strip s = rev (dropWhile is_space (rev (dropWhile is_space s)))"

definition is_int_space :: "char \<Rightarrow> bool" where
  "is_int_space c = (let k = of_char c :: nat in (9 \<le> k \<and> k \<le> 13) \<or> k = 32)"

definition int_strip :: "string \<Rightarrow> string" where
  "int_strip s = rev (dropWhile is_int_space (rev (dropWhile is_int_space s)))"

fun split_sp :: "string \<Rightarrow> string list" where
  "split_sp [] = [[]]"
| "split_sp (c # cs) =
     (if c = CHR '' '' then [] # split_sp cs
      else (case split_sp cs of [] \<Rightarrow> [[c]] | t # ts \<Rightarrow> (c # t) # ts))"

definition is_digit :: "char \<Rightarrow> bool" where
  "is_digit c = (let k = of_char c :: nat in 48 \<le> k \<and> k \<le> 57)"

definition digit_val :: "char \<Rightarrow> nat" where
  "digit_val c = of_char c - 48"

text \<open>
  The digits of an integer literal as \<^verbatim>\<open>int\<close> reads them: at least one digit, and
  single underscores allowed between digits only. The flag says whether the previous
  character was a digit.
\<close>

fun parse_digits :: "bool \<Rightarrow> nat \<Rightarrow> string \<Rightarrow> nat option" where
  "parse_digits prev acc [] = (if prev then Some acc else None)"
| "parse_digits prev acc (c # cs) =
     (if is_digit c then parse_digits True (10 * acc + digit_val c) cs
      else if c = CHR ''_'' \<and> prev then parse_digits False acc cs
      else None)"

definition py_int :: "string \<Rightarrow> error + int" where
  "py_int s =
     (case int_strip s of
        [] \<Rightarrow> Inl ValueError
      | c # cs \<Rightarrow>
          (if c = CHR ''-'' then
             (case parse_digits False 0 cs of None \<Rightarrow> Inl ValueError | Some n \<Rightarrow> Inr (- int n))
           else if c = CHR ''+'' then
             (case parse_digits False 0 cs of None \<Rightarrow> Inl ValueError | Some n \<Rightarrow> Inr (int n))
           else
             (case parse_digits False 0 (c # cs) of None \<Rightarrow> Inl ValueError | Some n \<Rightarrow> Inr (int n))))"

definition digit_char :: "nat \<Rightarrow> char" where
  "digit_char k = char_of (48 + k)"

fun nat_digits :: "nat \<Rightarrow> string" where
  "nat_digits n = (if n < 10 then [digit_char n] else nat_digits (n div 10) @ [digit_char (n mod 10)])"

declare nat_digits.simps [simp del]

definition py_str :: "int \<Rightarrow> string" where
  "py_str i = (if i < 0 then CHR ''-'' # nat_digits (nat (- i)) else nat_digits (nat i))"

section \<open>The circuit\<close>

text \<open>
  \<^verbatim>\<open>class dDNNF\<close>: \<open>children\<close> holds for each node the list of the indices of its
  operands, \<open>label\<close> the node's kind as a string: \<^verbatim>\<open>'T'\<close>, \<^verbatim>\<open>'F'\<close>, \<^verbatim>\<open>'A'\<close>,
  \<^verbatim>\<open>'O'\<close> followed by the decision variable, or the decimal text of a literal.
  The constructor \<^verbatim>\<open>dDNNF(v)\<close> makes \<open>v\<close> empty child lists and \<open>v\<close> empty labels.
\<close>

record dDNNF =
  children :: "int list list"
  label :: "string list"

definition dDNNF_init :: "int \<Rightarrow> dDNNF" where
  "dDNNF_init v = \<lparr>children = replicate (nat v) [], label = replicate (nat v) []\<rparr>"

section \<open>Reason enumeration\<close>

definition prod_cart :: "int set list \<Rightarrow> int set list \<Rightarrow> int set list" where
  "prod_cart s1 s2 = concat (map (\<lambda>x. map (\<lambda>y. x \<union> y) s2) s1)"

definition remove_subsumed :: "int set list \<Rightarrow> int set list" where
  "remove_subsumed r =
     (let res = filter (\<lambda>s1. \<not> (\<exists>s2 \<in> set r. s2 \<subset> s1)) r
      in map (\<lambda>i. res ! i) (filter (\<lambda>i. res ! i \<notin> set (drop (i + 1) res)) [0..<length res]))"

text \<open>
  \<^verbatim>\<open>Pi(decision, i)\<close>. The first argument is the recursion depth still available.
  The loops over \<^verbatim>\<open>range(1, len(decision.children[i]))\<close> read the remaining children
  by position, inside the list.
\<close>

primrec Pi :: "nat \<Rightarrow> dDNNF \<Rightarrow> int \<Rightarrow> error + int set list" where
  "Pi 0 d i = Inl RecursionError"
| "Pi (Suc n) d i =
     err_bind (py_get (label d) i) (\<lambda>l.
     err_bind
       (if l = ''F'' then Inr []
        else if l = ''T'' then Inr [{}]
        else if l = ''A'' then
          err_bind (py_get (children d) i) (\<lambda>cs.
          err_bind (py_get cs 0) (\<lambda>j.
          err_bind (Pi n d j) (\<lambda>r0.
          for_loop [1..<length cs]
            (\<lambda>j r. err_bind (Pi n d (cs ! j)) (\<lambda>r'. Inr (prod_cart r r'))) r0)))
        else
          err_bind (py_get l 0) (\<lambda>c.
          if c = CHR ''O'' then
            err_bind (py_get (children d) i) (\<lambda>cs.
            err_bind (py_get cs 0) (\<lambda>j.
            err_bind (Pi n d j) (\<lambda>r0.
            for_loop [1..<length cs]
              (\<lambda>j r. err_bind (Pi n d (cs ! j)) (\<lambda>r'. Inr (r @ r'))) r0)))
          else err_bind (py_int l) (\<lambda>x. Inr [{x}])))
       (\<lambda>r. Inr (remove_subsumed r)))"

section \<open>Transforms and the satisfiability evaluator\<close>

text \<open>
  The assignments \<^verbatim>\<open>c.label[i] = s\<close> and \<^verbatim>\<open>c.children[i] = cs\<close>, for a position
  inside the list.
\<close>

definition set_label :: "dDNNF \<Rightarrow> nat \<Rightarrow> string \<Rightarrow> dDNNF" where
  "set_label c i s = c\<lparr>label := (label c)[i := s]\<rparr>"

definition set_children :: "dDNNF \<Rightarrow> nat \<Rightarrow> int list \<Rightarrow> dDNNF" where
  "set_children c i cs = c\<lparr>children := (children c)[i := cs]\<rparr>"

text \<open>
  A subscript is \<open>py_get\<close> wherever the source can raise \<^verbatim>\<open>IndexError\<close> there; it is
  \<open>xs ! i\<close> where the enclosing \<^verbatim>\<open>range\<close> keeps the index inside the list.
\<close>

definition negate :: "dDNNF \<Rightarrow> error + dDNNF" where
  "negate decision =
     (let v = length (label decision) in
      for_loop [0..<v]
        (\<lambda>i negated_decision.
           err_bind (py_get (children decision) (int i)) (\<lambda>cs.
           let nd = set_children negated_decision i cs in
           err_bind (py_get (label decision ! i) 0) (\<lambda>c.
           if c = CHR ''T'' then Inr (set_label nd i ''F'')
           else if c = CHR ''F'' then Inr (set_label nd i ''T'')
           else if c = CHR ''A'' then Inr (set_label nd i ''O'')
           else if c = CHR ''O'' then Inr (set_label nd i ''A'')
           else err_bind (py_int (label decision ! i)) (\<lambda>x.
                Inr (set_label nd i (py_str (- x)))))))
        (dDNNF_init (int v)))"

text \<open>
  \<^verbatim>\<open>is_satisfiable(decision, i)\<close>. The first argument is the recursion depth still
  available. \<^verbatim>\<open>boolean and e\<close> evaluates \<^verbatim>\<open>e\<close> only when \<^verbatim>\<open>boolean\<close> is true,
  \<^verbatim>\<open>boolean or e\<close> only when it is false.
\<close>

primrec is_satisfiable :: "nat \<Rightarrow> dDNNF \<Rightarrow> int \<Rightarrow> error + bool" where
  "is_satisfiable 0 d i = Inl RecursionError"
| "is_satisfiable (Suc n) d i =
     err_bind (py_get (label d) i) (\<lambda>l.
     err_bind (py_get l 0) (\<lambda>c.
     if c = CHR ''F'' then Inr False
     else if c = CHR ''A'' then
       err_bind (py_get (children d) i) (\<lambda>cs.
       err_bind (py_get cs 0) (\<lambda>j.
       err_bind (is_satisfiable n d j) (\<lambda>b0.
       for_loop [1..<length cs]
         (\<lambda>j boolean. if boolean then is_satisfiable n d (cs ! j) else Inr False) b0)))
     else if c = CHR ''O'' then
       err_bind (py_get (children d) i) (\<lambda>cs.
       err_bind (py_get cs 0) (\<lambda>j.
       err_bind (is_satisfiable n d j) (\<lambda>b0.
       for_loop [1..<length cs]
         (\<lambda>j boolean. if boolean then Inr True else is_satisfiable n d (cs ! j)) b0)))
     else Inr True))"

text \<open>
  \<^verbatim>\<open>condition(decision, a)\<close>. The dictionary \<^verbatim>\<open>a\<close> is a map from variables to
  truth values: \<^verbatim>\<open>y in a\<close> is \<open>a y \<noteq> None\<close>, and \<^verbatim>\<open>a[y]\<close> is the value stored.
\<close>

definition condition :: "dDNNF \<Rightarrow> (int \<rightharpoonup> bool) \<Rightarrow> error + dDNNF" where
  "condition decision a =
     (let v = length (label decision) in
      for_loop [0..<v]
        (\<lambda>i conditioned_decision.
           err_bind (py_get (children decision) (int i)) (\<lambda>cs.
           let cd = set_children conditioned_decision i cs in
           err_bind (py_get (label decision ! i) 0) (\<lambda>c.
           if c \<notin> {CHR ''O'', CHR ''A'', CHR ''T'', CHR ''F''} then
             err_bind (py_int (label decision ! i)) (\<lambda>x.
             let y = \<bar>x\<bar> in
             (case a y of
                Some ay \<Rightarrow>
                  if (x > 0 \<and> ay) \<or> (x < 0 \<and> \<not> ay) then Inr (set_label cd i ''T'')
                  else Inr (set_label cd i ''F'')
              | None \<Rightarrow> Inr (set_label cd i (label decision ! i))))
           else Inr (set_label cd i (label decision ! i)))))
        (dDNNF_init (int v)))"

section \<open>Consensus and Filter\<close>

text \<open>
  \<^verbatim>\<open>consensus(decision)\<close> mutates the circuit; the model returns the circuit after the
  call. Here each node's child list is an object of its own, as the loader builds
  them, so appending to \<^verbatim>\<open>decision.children[i]\<close> changes node \<open>i\<close> only. The sharing
  of child lists between two circuits is modelled with a store further down.
  The decision variable is read as \<^verbatim>\<open>int(decision.label[i][1])\<close>: the one character
  after the \<^verbatim>\<open>'O'\<close>. \<open>consensus_body\<close> is the body of the loop over the nodes; the
  label list only grows, so \<^verbatim>\<open>decision.label[i]\<close> is inside it for \<open>i < v\<close>.
\<close>

definition consensus_body :: "nat \<Rightarrow> dDNNF \<Rightarrow> error + dDNNF" where
  "consensus_body i decision =
     err_bind (py_get (label decision ! i) 0) (\<lambda>c.
     if c = CHR ''O'' then
       err_bind (py_get (label decision ! i) 1) (\<lambda>c1.
       err_bind (py_int [c1]) (\<lambda>x.
       err_bind (py_get (children decision) (int i)) (\<lambda>ci.
       err_bind (py_get ci 0) (\<lambda>k.
       err_bind (py_get ci 1) (\<lambda>j.
       err_bind (py_get (children decision) k) (\<lambda>ck.
       err_bind (py_get (children decision) j) (\<lambda>cj.
       err_bind
         (for_loop (ck @ cj)
            (\<lambda>w cons.
               err_bind (py_get (label decision) w) (\<lambda>lw.
               Inr (if lw \<notin> {py_str x, py_str (- x)} then cons @ [w] else cons)))
            [])
         (\<lambda>cons.
            Inr \<lparr>children = (children decision @ [cons])
                               [i := ci @ [int (length (label decision))]],
                 label = label decision @ [''A'']\<rparr>))))))))
     else Inr decision)"

definition consensus :: "dDNNF \<Rightarrow> error + dDNNF" where
  "consensus decision =
     (let v = length (label decision) in for_loop [0..<v] consensus_body decision)"

text \<open>
  \<^verbatim>\<open>filter(decision, a)\<close>, returning the circuit after the call. The instance is read
  for its truth values only. \<^verbatim>\<open>a[y]\<close> is evaluated when \<^verbatim>\<open>x > 0\<close>, or else when
  \<^verbatim>\<open>x < 0\<close>, and not at all when \<^verbatim>\<open>x\<close> is 0.
\<close>

definition filter_dDNNF :: "dDNNF \<Rightarrow> bool list \<Rightarrow> error + dDNNF" where
  "filter_dDNNF decision0 a =
     (let v = length (children decision0) in
      for_loop [0..<v]
        (\<lambda>i decision.
           err_bind (py_get (label decision) (int i)) (\<lambda>l.
           err_bind (py_get l 0) (\<lambda>c.
           if c \<notin> {CHR ''O'', CHR ''A'', CHR ''T'', CHR ''F''} then
             err_bind (py_int l) (\<lambda>x.
             let y = \<bar>x\<bar> - 1 in
             if x > 0 then
               err_bind (py_get a y) (\<lambda>ay.
               if \<not> ay then Inr (set_label decision i ''F'') else Inr decision)
             else if x < 0 then
               err_bind (py_get a y) (\<lambda>ay.
               if ay then Inr (set_label decision i ''F'') else Inr decision)
             else Inr decision)
           else Inr decision)))
        decision0)"

section \<open>Queries\<close>

text \<open>
  \<^verbatim>\<open>necessary_property(decision, m)\<close>; \<open>[1..m]\<close> is \<^verbatim>\<open>range(1, m + 1)\<close>. The first
  argument of each query is the recursion depth available to \<^verbatim>\<open>is_satisfiable\<close>.
\<close>

definition necessary_property :: "nat \<Rightarrow> dDNNF \<Rightarrow> int \<Rightarrow> error + int set" where
  "necessary_property n decision m =
     for_loop [1..m]
       (\<lambda>i res.
          err_bind (condition decision [i \<mapsto> False]) (\<lambda>conditioned_decision_pos.
          err_bind (condition decision [i \<mapsto> True]) (\<lambda>conditioned_decision_neg.
          err_bind (is_satisfiable n conditioned_decision_pos 0) (\<lambda>sat_pos.
          let res = (if \<not> sat_pos then insert i res else res) in
          err_bind (is_satisfiable n conditioned_decision_neg 0) (\<lambda>sat_neg.
          Inr (if \<not> sat_neg then insert (- i) res else res))))))
       {}"

text \<open>
  The dictionary \<^verbatim>\<open>{abs(x): x < 0 for x in necessary_prop}\<close>. A literal \<open>x\<close> stores
  under the key \<open>\<bar>x\<bar>\<close> the truth of \<open>x < 0\<close>. When the set holds both \<open>y\<close> and \<open>- y\<close>,
  the dictionary keeps what the later of the two stores, and the order in which a set
  yields its elements is left open by Python: \<open>neg_last y\<close> says whether \<open>- y\<close> comes
  after \<open>y\<close>.
\<close>

definition flipped_assignment :: "(int \<Rightarrow> bool) \<Rightarrow> int set \<Rightarrow> (int \<rightharpoonup> bool)" where
  "flipped_assignment neg_last necessary_prop y =
     (if y < 0 then None
      else if y \<in> necessary_prop \<and> - y \<in> necessary_prop then Some (y \<noteq> 0 \<and> neg_last y)
      else if y \<in> necessary_prop then Some False
      else if - y \<in> necessary_prop then Some True
      else None)"

definition necessary_Reason :: "(int \<Rightarrow> bool) \<Rightarrow> nat \<Rightarrow> dDNNF \<Rightarrow> int \<Rightarrow> error + int set" where
  "necessary_Reason neg_last n decision m =
     err_bind (necessary_property n decision m) (\<lambda>necessary_prop.
     let a = flipped_assignment neg_last necessary_prop in
     err_bind (condition decision a) (\<lambda>conditioned_decision.
     err_bind (is_satisfiable n conditioned_decision 0) (\<lambda>sat.
     Inr (if \<not> sat then necessary_prop else {}))))"

text \<open>
  \<^verbatim>\<open>because_t(decision, t)\<close>. The dictionary \<^verbatim>\<open>t\<close> is the list of its items in the
  order \<^verbatim>\<open>t.items()\<close> yields them, with distinct keys; \<open>map_of t\<close> looks a key up.
  The loop returns from the function at the first satisfiable circuit.
\<close>

fun because_t_loop :: "nat \<Rightarrow> dDNNF \<Rightarrow> (int \<times> bool) list \<Rightarrow> error + bool" where
  "because_t_loop n decision [] = Inr True"
| "because_t_loop n decision ((c, v) # rest) =
     err_bind (condition decision [c \<mapsto> \<not> v]) (\<lambda>conditioned_decision.
     err_bind (is_satisfiable n conditioned_decision 0) (\<lambda>sat.
     if sat then Inr False else because_t_loop n decision rest))"

definition because_t :: "nat \<Rightarrow> dDNNF \<Rightarrow> (int \<times> bool) list \<Rightarrow> error + bool" where
  "because_t n decision t =
     err_bind (negate decision) (\<lambda>negated_decision.
     err_bind (condition negated_decision (map_of t)) (\<lambda>conditioned_decision.
     err_bind (is_satisfiable n conditioned_decision 0) (\<lambda>sat.
     if sat then Inr False else because_t_loop n decision t)))"

section \<open>Shared child lists: the store\<close>

text \<open>
  \<^verbatim>\<open>evenIf_because_t\<close> copies the circuit with
  \<^verbatim>\<open>decision_b.children[i] = decision.children[i]\<close>, which stores in the copy the
  list object of the original, and then runs \<^verbatim>\<open>consensus\<close> on the copy. What the base
  circuit holds afterwards depends on that sharing, so here the inner child lists live
  in a store, a list indexed by address, and a circuit holds the addresses of its
  child lists. The outer lists \<^verbatim>\<open>children\<close> and \<^verbatim>\<open>label\<close> of the copy are new objects,
  and labels are immutable strings, so they stay values. \<open>view st c\<close> is the circuit
  that \<open>c\<close> denotes in the store \<open>st\<close>.

  \<open>dDNNF_init_ref\<close> is the constructor, allocating \<open>v\<close> empty lists.
  \<open>consensus_ref_body\<close> is \<open>consensus_body\<close> on the store: \<^verbatim>\<open>decision.children.append(cons)\<close>
  allocates the new list, and \<^verbatim>\<open>decision.children[i].append(...)\<close> updates the
  object at the address of node \<open>i\<close>, for every circuit that holds that address.
  \<^verbatim>\<open>filter\<close> assigns labels of the copy only and \<^verbatim>\<open>because_t\<close> assigns nothing shared,
  so both run on the view. The result carries the store after the call; an exception
  is a result without a store.
\<close>

type_synonym store = "int list list"

record dDNNF_ref =
  children_ref :: "nat list"
  label_ref :: "string list"

definition view :: "store \<Rightarrow> dDNNF_ref \<Rightarrow> dDNNF" where
  "view st c = \<lparr>children = map (\<lambda>r. st ! r) (children_ref c), label = label_ref c\<rparr>"

definition dDNNF_init_ref :: "store \<Rightarrow> int \<Rightarrow> store \<times> dDNNF_ref" where
  "dDNNF_init_ref st v =
     (st @ replicate (nat v) [],
      \<lparr>children_ref = [length st..<length st + nat v], label_ref = replicate (nat v) []\<rparr>)"

definition consensus_ref_body :: "nat \<Rightarrow> store \<times> dDNNF_ref \<Rightarrow> error + store \<times> dDNNF_ref" where
  "consensus_ref_body i = (\<lambda>(st, decision).
     err_bind (py_get (label_ref decision ! i) 0) (\<lambda>c.
     if c = CHR ''O'' then
       err_bind (py_get (label_ref decision ! i) 1) (\<lambda>c1.
       err_bind (py_int [c1]) (\<lambda>x.
       err_bind (py_get (children_ref decision) (int i)) (\<lambda>ri.
       err_bind (py_get (st ! ri) 0) (\<lambda>k.
       err_bind (py_get (st ! ri) 1) (\<lambda>j.
       err_bind (py_get (children_ref decision) k) (\<lambda>rk.
       err_bind (py_get (children_ref decision) j) (\<lambda>rj.
       err_bind
         (for_loop (st ! rk @ st ! rj)
            (\<lambda>w cons.
               err_bind (py_get (label_ref decision) w) (\<lambda>lw.
               Inr (if lw \<notin> {py_str x, py_str (- x)} then cons @ [w] else cons)))
            [])
         (\<lambda>cons.
            let st1 = st @ [cons];
                refs1 = children_ref decision @ [length st];
                st2 = st1[ri := st1 ! ri @ [int (length (label_ref decision))]]
            in Inr (st2, \<lparr>children_ref = refs1, label_ref = label_ref decision @ [''A'']\<rparr>)))))))))
     else Inr (st, decision)))"

definition consensus_ref :: "store \<Rightarrow> dDNNF_ref \<Rightarrow> error + store \<times> dDNNF_ref" where
  "consensus_ref st decision =
     (let v = length (label_ref decision) in for_loop [0..<v] consensus_ref_body (st, decision))"

text \<open>
  A circuit uses the store well when its nodes hold distinct addresses of the store:
  no two of its nodes share a child list. \<open>views d (st, c)\<close> says that \<open>d\<close> is what such
  a circuit \<open>c\<close> denotes in \<open>st\<close>.
\<close>

definition store_ok :: "store \<Rightarrow> dDNNF_ref \<Rightarrow> bool" where
  "store_ok st c = (distinct (children_ref c) \<and> list_all (\<lambda>r. r < length st) (children_ref c))"

definition views :: "dDNNF \<Rightarrow> store \<times> dDNNF_ref \<Rightarrow> bool" where
  "views d = (\<lambda>(st, c). d = view st c \<and> store_ok st c)"

definition evenIf_because_t ::
  "nat \<Rightarrow> store \<Rightarrow> dDNNF_ref \<Rightarrow> int list \<Rightarrow> (int \<times> bool) list \<Rightarrow> int set \<Rightarrow> error + store \<times> bool" where
  "evenIf_because_t n st decision a t p =
     (let v = length (label_ref decision);
          (st0, decision_b0) = dDNNF_init_ref st (int v) in
      err_bind
        (for_loop [0..<v]
           (\<lambda>i decision_b.
              err_bind (py_get (children_ref decision) (int i)) (\<lambda>r.
              Inr \<lparr>children_ref = (children_ref decision_b)[i := r],
                   label_ref = (label_ref decision_b)[i := label_ref decision ! i]\<rparr>))
           decision_b0)
        (\<lambda>decision_b.
      let b = map (\<lambda>i. if int i + 1 \<notin> p then a ! i else 1 - a ! i) [0..<length a] in
      err_bind (consensus_ref st0 decision_b) (\<lambda>(st1, decision_b).
      err_bind (filter_dDNNF (view st1 decision_b) (map (\<lambda>x. x \<noteq> 0) b)) (\<lambda>decision_b.
      err_bind (because_t n decision_b t) (\<lambda>r. Inr (st1, r))))))"

section \<open>The loader\<close>

text \<open>
  \<^verbatim>\<open>file_to_dDNNF(file)\<close>. The file is the list of its lines, without their line
  ends; \<^verbatim>\<open>f.readline()\<close> takes the next line and gives the empty string at the end of
  the file. \<^verbatim>\<open>strip\<close> removes the line end in the source, so a line is the same list
  of fields with or without it. \<^verbatim>\<open>return None\<close> is the result \<open>None\<close>.

  \<open>file_to_dDNNF_body v i\<close> is the body of \<^verbatim>\<open>while i < v\<close>: its state is the circuit,
  the fields of the current line, and the rest of the file. The circuit is new, so
  its child lists are objects of their own. \<open>[2..k + 1]\<close> is \<^verbatim>\<open>range(2, k + 2)\<close>.
\<close>

definition readline :: "string list \<Rightarrow> string \<times> string list" where
  "readline f = (case f of [] \<Rightarrow> ([], []) | l # rest \<Rightarrow> (l, rest))"

definition file_to_dDNNF_body ::
  "int \<Rightarrow> nat \<Rightarrow> dDNNF \<times> string list \<times> string list
     \<Rightarrow> error + dDNNF \<times> string list \<times> string list" where
  "file_to_dDNNF_body v i = (\<lambda>(decision, line, f).
     let n = nat (v - int i - 1) in
     err_bind (py_get line 0) (\<lambda>tag.
     err_bind
       (if tag = ''A'' then
          err_bind (py_get line 1) (\<lambda>s1.
          err_bind (py_int s1) (\<lambda>k.
          if k = 0 then Inr (set_label decision n ''T'')
          else
            err_bind
              (for_loop [2..k + 1]
                 (\<lambda>j decision.
                    err_bind (py_get line j) (\<lambda>sj.
                    err_bind (py_int sj) (\<lambda>c.
                    Inr (set_children decision n (children decision ! n @ [v - c - 1])))))
                 decision)
              (\<lambda>decision. Inr (set_label decision n ''A''))))
        else if tag = ''O'' then
          err_bind (py_get line 2) (\<lambda>s2.
          err_bind (py_int s2) (\<lambda>k.
          if k = 0 then Inr (set_label decision n ''F'')
          else
            err_bind (py_get line 3) (\<lambda>s3.
            err_bind (py_int s3) (\<lambda>c1.
            let decision = set_children decision n (children decision ! n @ [v - c1 - 1]) in
            err_bind (py_get line 4) (\<lambda>s4.
            err_bind (py_int s4) (\<lambda>c2.
            let decision = set_children decision n (children decision ! n @ [v - c2 - 1]) in
            err_bind (py_get line 1) (\<lambda>s1.
            Inr (set_label decision n (''O'' @ s1)))))))))
        else
          err_bind (py_get line 1) (\<lambda>s1. Inr (set_label decision n s1)))
       (\<lambda>decision.
          let (l, f) = readline f in Inr (decision, split_sp (strip l), f))))"

definition file_to_dDNNF :: "string list \<Rightarrow> error + dDNNF option" where
  "file_to_dDNNF file =
     (let (l, f) = readline file; line = split_sp (strip l) in
      if line = [] then Inr None
      else
        err_bind (py_get line 1) (\<lambda>s.
        err_bind (py_int s) (\<lambda>v.
        let decision = dDNNF_init v;
            (l, f) = readline f;
            line = split_sp (strip l)
        in err_bind (for_loop [0..<nat v] (file_to_dDNNF_body v) (decision, line, f))
             (\<lambda>(decision, line, f). Inr (Some decision)))))"

text \<open>
  A well-formed node line, by its fields: after \<^verbatim>\<open>A\<close> a
  count \<open>k \<ge> 0\<close> and \<open>k\<close> integers; after \<^verbatim>\<open>O\<close> a variable, a count \<open>k\<close> and, unless
  \<open>k = 0\<close>, two integers; after any other tag an integer. \<open>expected_node v line\<close> is
  the label and the children that the format gives the node of such a line in a
  circuit of \<open>v\<close> nodes, a child reference \<open>c\<close> becoming \<open>v - c - 1\<close>.
\<close>

definition parses :: "string \<Rightarrow> bool" where
  "parses s = (\<not> isl (py_int s))"

definition node_line_ok :: "string list \<Rightarrow> bool" where
  "node_line_ok line =
     (2 \<le> length line \<and>
      (if line ! 0 = ''A'' then
         parses (line ! 1) \<and> 0 \<le> projr (py_int (line ! 1))
         \<and> list_all (\<lambda>j. nat j < length line \<and> parses (line ! nat j))
              [2..projr (py_int (line ! 1)) + 1]
       else if line ! 0 = ''O'' then
         3 \<le> length line \<and> parses (line ! 2)
         \<and> (projr (py_int (line ! 2)) = 0
             \<or> (5 \<le> length line \<and> parses (line ! 3) \<and> parses (line ! 4)))
       else parses (line ! 1)))"

text \<open>
  A node line the loader reads without an exception needs less: after a tag other
  than \<^verbatim>\<open>A\<close> and \<^verbatim>\<open>O\<close> any second field will do.
\<close>

definition node_line_loads :: "string list \<Rightarrow> bool" where
  "node_line_loads line =
     (2 \<le> length line \<and>
      (if line ! 0 = ''A'' then
         parses (line ! 1) \<and> 0 \<le> projr (py_int (line ! 1))
         \<and> list_all (\<lambda>j. nat j < length line \<and> parses (line ! nat j))
              [2..projr (py_int (line ! 1)) + 1]
       else if line ! 0 = ''O'' then
         3 \<le> length line \<and> parses (line ! 2)
         \<and> (projr (py_int (line ! 2)) = 0
             \<or> (5 \<le> length line \<and> parses (line ! 3) \<and> parses (line ! 4)))
       else True))"

definition expected_node :: "int \<Rightarrow> string list \<Rightarrow> string \<times> int list" where
  "expected_node v line =
     (if line ! 0 = ''A'' then
        (let k = projr (py_int (line ! 1)) in
         if k = 0 then (''T'', [])
         else (''A'', map (\<lambda>j. v - projr (py_int (line ! nat j)) - 1) [2..k + 1]))
      else if line ! 0 = ''O'' then
        (if projr (py_int (line ! 2)) = 0 then (''F'', [])
         else (''O'' @ line ! 1,
               [v - projr (py_int (line ! 3)) - 1, v - projr (py_int (line ! 4)) - 1]))
      else (line ! 1, []))"

section \<open>Well-formed labels\<close>

text \<open>
  The labels the loader and the transforms write for a node of each kind: \<^verbatim>\<open>'T'\<close>,
  \<^verbatim>\<open>'F'\<close>, \<^verbatim>\<open>'A'\<close>, a string that begins with \<^verbatim>\<open>'O'\<close>, or the text \<^verbatim>\<open>str\<close> gives
  for an integer. \<open>negated_label\<close> is the label \<^verbatim>\<open>negate\<close> writes for such a label.
\<close>

definition canonical_label :: "string \<Rightarrow> bool" where
  "canonical_label l =
     (l = ''T'' \<or> l = ''F'' \<or> l = ''A'' \<or> (l \<noteq> [] \<and> hd l = CHR ''O'')
      \<or> (case py_int l of Inr x \<Rightarrow> l = py_str x | Inl e \<Rightarrow> False))"

definition negated_label :: "string \<Rightarrow> string" where
  "negated_label l =
     (if l = ''T'' then ''F'' else if l = ''F'' then ''T'' else if l = ''A'' then ''O''
      else if l \<noteq> [] \<and> hd l = CHR ''O'' then ''A''
      else py_str (- projr (py_int l)))"

section \<open>Circuits on which consensus runs\<close>

text \<open>
  \<open>is_Or\<close> is the test \<^verbatim>\<open>decision.label[i][0] == 'O'\<close> on a label, and \<open>or_count d i\<close>
  the number of such labels among the first \<open>i\<close> nodes. A circuit is ready for
  \<^verbatim>\<open>consensus\<close> when every child index is a node index, no label is empty, and
  every node whose label begins with \<^verbatim>\<open>'O'\<close> has a digit after it and at least two
  children. \<open>consensus_inv d i s\<close> describes the circuit \<open>s\<close> that the loop has made of
  \<open>d\<close> when it reaches node \<open>i\<close>.
\<close>

definition is_Or :: "string \<Rightarrow> bool" where
  "is_Or l = (l \<noteq> [] \<and> hd l = CHR ''O'')"

definition or_count :: "dDNNF \<Rightarrow> nat \<Rightarrow> nat" where
  "or_count d i = length (filter is_Or (take i (label d)))"

definition consensus_ready :: "dDNNF \<Rightarrow> bool" where
  "consensus_ready d =
     (list_all (list_all (\<lambda>w. 0 \<le> w \<and> w < int (length (label d)))) (children d)
      \<and> list_all2 (\<lambda>l cs. l \<noteq> [] \<and>
           (is_Or l \<longrightarrow> 2 \<le> length l \<and> is_digit (l ! 1) \<and> 2 \<le> length cs))
          (label d) (children d))"

definition consensus_inv :: "dDNNF \<Rightarrow> nat \<Rightarrow> dDNNF \<Rightarrow> bool" where
  "consensus_inv d i s \<longleftrightarrow>
     label s = label d @ replicate (or_count d i) ''A''
     \<and> length (children s) = length (label d) + or_count d i
     \<and> (\<forall>j < length (label d). children s ! j =
           (if j < i \<and> is_Or (label d ! j)
            then children d ! j @ [int (length (label d) + or_count d j)]
            else children d ! j))"

section \<open>Conditioning on more variables\<close>

text \<open>
  \<open>conditioned_label a l l2\<close>: \<^verbatim>\<open>condition\<close> with the assignment \<open>a\<close> writes \<open>l2\<close> for a
  node labelled \<open>l\<close>. \<open>more_conditioned cd' cd\<close>: the circuits have the same children,
  and \<open>cd\<close> differs from \<open>cd'\<close> only where \<open>cd'\<close> still has a literal and \<open>cd\<close> a
  constant. \<open>necessary_property_body\<close> is the body of the loop of
  \<^verbatim>\<open>necessary_property\<close>, and \<open>unsat_flip n d x\<close> says that the circuit \<open>d\<close> conditioned
  on the literal \<open>x\<close> flipped is unsatisfiable.
\<close>

definition conditioned_label :: "(int \<rightharpoonup> bool) \<Rightarrow> string \<Rightarrow> string \<Rightarrow> bool" where
  "conditioned_label a l l2 =
     (l \<noteq> [] \<and>
      (if hd l \<notin> {CHR ''O'', CHR ''A'', CHR ''T'', CHR ''F''} then
         (\<exists>x. py_int l = Inr x \<and>
            l2 = (case a \<bar>x\<bar> of
                    Some ay \<Rightarrow> if (x > 0 \<and> ay) \<or> (x < 0 \<and> \<not> ay) then ''T'' else ''F''
                  | None \<Rightarrow> l))
       else l2 = l))"

definition more_conditioned :: "dDNNF \<Rightarrow> dDNNF \<Rightarrow> bool" where
  "more_conditioned cd' cd =
     (children cd = children cd' \<and> length (label cd) = length (label cd')
      \<and> (\<forall>i < length (label cd').
            label cd ! i = label cd' ! i
            \<or> (label cd' ! i \<noteq> [] \<and> hd (label cd' ! i) \<notin> {CHR ''O'', CHR ''A'', CHR ''T'', CHR ''F''}
                \<and> label cd ! i \<in> {''T'', ''F''})))"

definition necessary_property_body :: "nat \<Rightarrow> dDNNF \<Rightarrow> int \<Rightarrow> int set \<Rightarrow> error + int set" where
  "necessary_property_body n d = (\<lambda>i res.
          err_bind (condition d [i \<mapsto> False]) (\<lambda>conditioned_decision_pos.
          err_bind (condition d [i \<mapsto> True]) (\<lambda>conditioned_decision_neg.
          err_bind (is_satisfiable n conditioned_decision_pos 0) (\<lambda>sat_pos.
          let res = (if \<not> sat_pos then insert i res else res) in
          err_bind (is_satisfiable n conditioned_decision_neg 0) (\<lambda>sat_neg.
          Inr (if \<not> sat_neg then insert (- i) res else res))))))"

definition unsat_flip :: "nat \<Rightarrow> dDNNF \<Rightarrow> int \<Rightarrow> bool" where
  "unsat_flip n d x \<longleftrightarrow> x \<noteq> 0
      \<and> (\<exists>cd. condition d [\<bar>x\<bar> \<mapsto> x < 0] = Inr cd \<and> is_satisfiable n cd 0 = Inr False)"

section \<open>Example circuits\<close>

text \<open>
  A circuit after \<^verbatim>\<open>consensus\<close> and \<^verbatim>\<open>filter\<close>: the root is a decision on
  variable 1 between \<open>1 \<and> 2\<close> and \<open>\<not>1 \<and> 3\<close>, node 3 is the consensus \<open>2 \<and> 3\<close>,
  and the literal \<open>-1\<close> has been filtered to \<^verbatim>\<open>'F'\<close>.
\<close>

definition filtered_example :: dDNNF where
  "filtered_example =
     \<lparr>children = [[1, 2, 3], [4, 5], [6, 7], [5, 7], [], [], [], []],
      label = [''O1'', ''A'', ''A'', ''A'', ''1'', ''2'', ''F'', ''3'']\<rparr>"

text \<open>
  A decision on variable 1 between the literals \<open>1\<close> and \<open>-1\<close>, as \<^verbatim>\<open>consensus\<close>
  leaves it: the appended conjunction, node 3, has no children.
\<close>

definition tautology_example :: dDNNF where
  "tautology_example =
     \<lparr>children = [[1, 2, 3], [], [], []], label = [''O1'', ''1'', ''-1'', ''A'']\<rparr>"

text \<open>
  The compiled text of that decision, before \<^verbatim>\<open>consensus\<close>: two literal leaves and
  the root.
\<close>

definition tautology_text :: "string list" where
  "tautology_text = [''nnf 3 2 1'', ''L -1'', ''L 1'', ''O 1 2 1 0'']"

text \<open>
  The conjunction of the literal \<open>1\<close> with a disjunction of the literals \<open>2\<close> and \<open>3\<close>.
\<close>

definition disjunction_example :: dDNNF where
  "disjunction_example =
     \<lparr>children = [[1, 2], [], [3, 4], [], []], label = [''A'', ''1'', ''O2'', ''2'', ''3'']\<rparr>"

text \<open>The circuit of the single literal \<open>1\<close>.\<close>

definition literal_example :: dDNNF where
  "literal_example = \<lparr>children = [[]], label = [''1'']\<rparr>"

text \<open>The conjunction of the literals \<open>1\<close> and \<open>2\<close>.\<close>

definition conjunction_example :: dDNNF where
  "conjunction_example = \<lparr>children = [[1, 2], [], []], label = [''A'', ''1'', ''2'']\<rparr>"

text \<open>An iteration order of Python sets that yields \<open>- y\<close> after \<open>y\<close>.\<close>

definition neg_last_always :: "int \<Rightarrow> bool" where
  "neg_last_always y = True"

text \<open>
  The decision on variable 1 between \<open>1 \<and> 2\<close> and \<open>\<not>1 \<and> 3\<close>, as the loader builds it:
  the circuit before \<^verbatim>\<open>consensus\<close>.
\<close>

definition decision_example :: dDNNF where
  "decision_example =
     \<lparr>children = [[1, 2], [3, 4], [5, 6], [], [], [], []],
      label = [''O1'', ''A'', ''A'', ''1'', ''2'', ''-1'', ''3'']\<rparr>"

text \<open>
  A decision on variable 12 between \<open>12 \<and> 1\<close> and \<open>\<not>12 \<and> 3\<close>, as the loader builds it.
\<close>

definition two_digit_example :: dDNNF where
  "two_digit_example =
     \<lparr>children = [[1, 2], [3, 5], [4, 6], [], [], [], []],
      label = [''O12'', ''A'', ''A'', ''12'', ''-12'', ''1'', ''3'']\<rparr>"

text \<open>
  The circuit \<open>decision_example\<close> in a store: node \<open>i\<close> holds the address \<open>i\<close>.
\<close>

definition base_ref :: dDNNF_ref where
  "base_ref = \<lparr>children_ref = [0, 1, 2, 3, 4, 5, 6],
               label_ref = [''O1'', ''A'', ''A'', ''1'', ''2'', ''-1'', ''3'']\<rparr>"

definition base_store :: store where
  "base_store = [[1, 2], [3, 4], [5, 6], [], [], [], []]"

text \<open>
  The compiled text of \<open>decision_example\<close>: seven nodes, the leaves first and the root
  last.
\<close>

definition decision_example_text :: "string list" where
  "decision_example_text =
     [''nnf 7 6 3'', ''L 3'', ''L -1'', ''L 2'', ''L 1'', ''A 2 1 0'', ''A 2 3 2'', ''O 1 2 5 4'']"

section \<open>Properties\<close>

lemma remove_subsumed_remdups:
  "remove_subsumed r = remdups (filter (\<lambda>s1. \<not> (\<exists>s2 \<in> set r. s2 \<subset> s1)) r)"
proof -
  have aux: "map (\<lambda>i. xs ! i) (filter (\<lambda>i. xs ! i \<notin> set (drop (i + 1) xs)) [0..<length xs]) = remdups xs"
    for xs :: "'a list"
  proof (induction xs)
    case Nil
    show ?case by simp
  next
    case (Cons x xs)
    have upt: "[0..<length (x # xs)] = 0 # map Suc [0..<length xs]"
      by (simp add: upt_conv_Cons map_Suc_upt del: upt_Suc)
    show ?case
      unfolding upt using Cons.IH
      by (simp add: filter_map comp_def)
  qed
  show ?thesis
    unfolding remove_subsumed_def Let_def by (rule aux)
qed

lemma err_bind_simps [simp]:
  "err_bind (Inl e) f = Inl e" "err_bind (Inr x) f = f x"
  by (simp_all add: err_bind_def)

lemma err_bind_eq_Inr: "err_bind m f = Inr y \<longleftrightarrow> (\<exists>x. m = Inr x \<and> f x = Inr y)"
  by (cases m) simp_all

lemma remove_subsumed_Nil_iff: "remove_subsumed r = [] \<longleftrightarrow> r = []"
proof
  assume e: "remove_subsumed r = []"
  show "r = []"
  proof (rule ccontr)
    assume "r \<noteq> []"
    then have "finite (set r)" "set r \<noteq> {}" by simp_all
    then obtain m where m: "m \<in> set r" "\<forall>b \<in> set r. b \<subseteq> m \<longrightarrow> m = b"
      using finite_has_minimal [of "set r"] by blast
    then have "m \<in> set (filter (\<lambda>s1. \<not> (\<exists>s2 \<in> set r. s2 \<subset> s1)) r)"
      by auto
    then have "m \<in> set (remove_subsumed r)"
      by (simp add: remove_subsumed_remdups)
    with e show False by simp
  qed
next
  assume "r = []"
  then show "remove_subsumed r = []" by (simp add: remove_subsumed_remdups)
qed

lemma prod_cart_Nil_iff: "prod_cart a b = [] \<longleftrightarrow> a = [] \<or> b = []"
  by (cases a; cases b) (auto simp: prod_cart_def)

lemma py_get_0_Cons [simp]: "py_get (x # xs) 0 = Inr x"
  by (simp add: py_get_def)

lemma py_get_0_Nil [simp]: "py_get [] i = Inl IndexError"
  by (simp add: py_get_def)

lemma int_strip_Cons_nonspace:
  "\<not> is_int_space c \<Longrightarrow> int_strip (c # cs) = c # rev (dropWhile is_int_space (rev cs))"
  by (simp add: int_strip_def dropWhile_append3)

lemma py_int_first_char:
  assumes "py_int (c # cs) = Inr x"
  shows "is_int_space c \<or> is_digit c \<or> c = CHR ''-'' \<or> c = CHR ''+''"
proof (rule ccontr)
  assume n: "\<not> ?thesis"
  then have "int_strip (c # cs) = c # rev (dropWhile is_int_space (rev cs))"
    by (simp add: int_strip_Cons_nonspace)
  with n assms show False
    by (simp add: py_int_def)
qed

lemma not_literal_start [simp]:
  "\<not> is_int_space CHR ''F''" "\<not> is_int_space CHR ''A''" "\<not> is_int_space CHR ''O''"
  "\<not> is_int_space CHR ''T''"
  "\<not> is_digit CHR ''F''" "\<not> is_digit CHR ''A''" "\<not> is_digit CHR ''O''" "\<not> is_digit CHR ''T''"
  by (simp_all add: is_int_space_def is_digit_def)

lemma and_loop_agrees:
  assumes IH: "\<And>i r. Pi n d i = Inr r \<Longrightarrow> is_satisfiable n d i = Inr (r \<noteq> [])"
  shows "for_loop js (\<lambda>j r. err_bind (Pi n d (cs ! j)) (\<lambda>r'. Inr (prod_cart r r'))) r0 = Inr rr
    \<Longrightarrow> for_loop js (\<lambda>j boolean. if boolean then is_satisfiable n d (cs ! j) else Inr False) (r0 \<noteq> [])
        = Inr (rr \<noteq> [])"
proof (induction js arbitrary: r0)
  case Nil
  then show ?case by simp
next
  case (Cons j js)
  from Cons.prems obtain r' where r': "Pi n d (cs ! j) = Inr r'"
    and rest: "for_loop js (\<lambda>j r. err_bind (Pi n d (cs ! j)) (\<lambda>r'. Inr (prod_cart r r'))) (prod_cart r0 r') = Inr rr"
    by (auto simp: err_bind_eq_Inr)
  from Cons.IH [OF rest] IH [OF r'] show ?case
    by (cases "r0 = []") (simp_all add: prod_cart_Nil_iff)
qed

lemma or_loop_agrees:
  assumes IH: "\<And>i r. Pi n d i = Inr r \<Longrightarrow> is_satisfiable n d i = Inr (r \<noteq> [])"
  shows "for_loop js (\<lambda>j r. err_bind (Pi n d (cs ! j)) (\<lambda>r'. Inr (r @ r'))) r0 = Inr rr
    \<Longrightarrow> for_loop js (\<lambda>j boolean. if boolean then Inr True else is_satisfiable n d (cs ! j)) (r0 \<noteq> [])
        = Inr (rr \<noteq> [])"
proof (induction js arbitrary: r0)
  case Nil
  then show ?case by simp
next
  case (Cons j js)
  from Cons.prems obtain r' where r': "Pi n d (cs ! j) = Inr r'"
    and rest: "for_loop js (\<lambda>j r. err_bind (Pi n d (cs ! j)) (\<lambda>r'. Inr (r @ r'))) (r0 @ r') = Inr rr"
    by (auto simp: err_bind_eq_Inr)
  from Cons.IH [OF rest] IH [OF r'] show ?case
    by (cases "r0 = []") simp_all
qed

lemma for_loop_upt_total:
  assumes "I k s" and "k \<le> v"
    and "\<And>i s. k \<le> i \<Longrightarrow> i < v \<Longrightarrow> I i s \<Longrightarrow> \<exists>s'. body i s = Inr s' \<and> I (Suc i) s'"
  shows "\<exists>s'. for_loop [k..<v] body s = Inr s' \<and> I v s'"
  using assms
proof (induction "v - k" arbitrary: k s)
  case 0
  then show ?case by simp
next
  case (Suc m)
  then have kv: "k < v" by simp
  from Suc.prems(3) [OF le_refl kv Suc.prems(1)] obtain s1
    where s1: "body k s = Inr s1" "I (Suc k) s1" by blast
  have "\<exists>s'. for_loop [Suc k..<v] body s1 = Inr s' \<and> I v s'"
  proof (rule Suc.hyps(1))
    show "m = v - Suc k" using Suc.hyps(2) by simp
    show "I (Suc k) s1" by (rule s1)
    show "Suc k \<le> v" using kv by simp
    show "\<exists>s'. body i s = Inr s' \<and> I (Suc i) s'" if "Suc k \<le> i" "i < v" "I i s" for i s
      using Suc.prems(3) [of i s] that by simp
  qed
  with s1 kv show ?case
    by (simp add: upt_conv_Cons)
qed

lemma for_loop_upt_partial:
  assumes "for_loop [k..<v] body s = Inr s'" and "I k s" and "k \<le> v"
    and "\<And>i s s'. k \<le> i \<Longrightarrow> i < v \<Longrightarrow> I i s \<Longrightarrow> body i s = Inr s' \<Longrightarrow> I (Suc i) s'"
  shows "I v s'"
  using assms
proof (induction "v - k" arbitrary: k s)
  case 0
  then show ?case by simp
next
  case (Suc m)
  then have kv: "k < v" by simp
  with Suc.prems(1) obtain s1 where s1: "body k s = Inr s1"
    and rest: "for_loop [Suc k..<v] body s1 = Inr s'"
    by (auto simp: upt_conv_Cons err_bind_eq_Inr)
  show ?case
  proof (rule Suc.hyps(1) [OF _ rest])
    show "m = v - Suc k" using Suc.hyps(2) by simp
    show "I (Suc k) s1" using Suc.prems(4) [OF le_refl kv Suc.prems(2) s1] .
    show "Suc k \<le> v" using kv by simp
    show "I (Suc i) s'" if "Suc k \<le> i" "i < v" "I i s" "body i s = Inr s'" for i s s'
      using Suc.prems(4) [of i s s'] that by simp
  qed
qed

lemma py_get_nat [simp]: "i < length xs \<Longrightarrow> py_get xs (int i) = Inr (xs ! i)"
  by (simp add: py_get_def)

lemma py_get_nat_Inr: "py_get xs (int i) = Inr x \<longleftrightarrow> i < length xs \<and> x = xs ! i"
  by (auto simp: py_get_def)

lemma is_digit_not_special:
  assumes "is_digit c"
  shows "\<not> is_int_space c" "c \<noteq> CHR ''-''" "c \<noteq> CHR ''+''" "c \<noteq> CHR ''_''"
    "c \<noteq> CHR ''T''" "c \<noteq> CHR ''F''" "c \<noteq> CHR ''A''" "c \<noteq> CHR ''O''"
  using assms by (auto simp: is_digit_def is_int_space_def Let_def)

lemma digit_char_props:
  assumes "k < 10"
  shows "is_digit (digit_char k)" "digit_val (digit_char k) = k"
  using assms by (simp_all add: is_digit_def digit_val_def digit_char_def Let_def)

lemma nat_digits_digits: "c \<in> set (nat_digits n) \<Longrightarrow> is_digit c"
proof (induction n arbitrary: c rule: nat_digits.induct)
  case (1 n)
  show ?case
  proof (cases "n < 10")
    case True
    with "1.prems" show ?thesis
      by (simp add: nat_digits.simps [of n] digit_char_props)
  next
    case False
    with "1.prems" "1.IH" show ?thesis
      by (auto simp: nat_digits.simps [of n] digit_char_props)
  qed
qed

lemma nat_digits_nonempty: "nat_digits n \<noteq> []"
  by (simp add: nat_digits.simps [of n])

lemma parse_digits_all_digits:
  assumes "\<forall>c \<in> set xs. is_digit c"
  shows "parse_digits p acc xs =
     (if xs = [] then (if p then Some acc else None)
      else Some (foldl (\<lambda>a c. 10 * a + digit_val c) acc xs))"
  using assms by (induction xs arbitrary: p acc) auto

lemma nat_digits_value: "foldl (\<lambda>a c. 10 * a + digit_val c) 0 (nat_digits n) = n"
proof (induction n rule: nat_digits.induct)
  case (1 n)
  show ?case
  proof (cases "n < 10")
    case True
    then show ?thesis by (simp add: nat_digits.simps [of n] digit_char_props)
  next
    case False
    with "1.IH" show ?thesis
      by (simp add: nat_digits.simps [of n] digit_char_props)
  qed
qed

lemma parse_nat_digits: "parse_digits False 0 (nat_digits n) = Some n"
  by (simp add: parse_digits_all_digits nat_digits_digits nat_digits_nonempty nat_digits_value)

lemma int_strip_no_space:
  assumes "\<forall>c \<in> set s. \<not> is_int_space c"
  shows "int_strip s = s"
proof -
  have dw: "dropWhile is_int_space t = t" if "\<forall>c \<in> set t. \<not> is_int_space c" for t
    using that by (cases t) auto
  show ?thesis
    using assms by (simp add: int_strip_def dw)
qed

lemma py_str_no_space: "c \<in> set (py_str x) \<Longrightarrow> \<not> is_int_space c"
  using is_digit_not_special(1) [OF nat_digits_digits, of c]
  by (auto simp: py_str_def is_int_space_def Let_def split: if_splits)

lemma py_int_py_str: "py_int (py_str x) = Inr x"
proof -
  have s: "int_strip (py_str x) = py_str x"
    by (rule int_strip_no_space) (auto dest: py_str_no_space)
  show ?thesis
  proof (cases "x < 0")
    case True
    then show ?thesis
      unfolding py_int_def s by (simp add: py_str_def parse_nat_digits)
  next
    case False
    obtain c cs where cs: "nat_digits (nat x) = c # cs"
      using nat_digits_nonempty by (cases "nat_digits (nat x)") auto
    then have "is_digit c" using nat_digits_digits [of c "nat x"] by simp
    then have "c \<noteq> CHR ''-''" "c \<noteq> CHR ''+''" by (auto dest: is_digit_not_special)
    moreover have "parse_digits False 0 (c # cs) = Some (nat x)"
      using parse_nat_digits [of "nat x"] cs by simp
    ultimately show ?thesis
      unfolding py_int_def s using False by (simp add: py_str_def cs)
  qed
qed

lemma py_str_first:
  "py_str x \<noteq> []" "hd (py_str x) \<notin> {CHR ''T'', CHR ''F'', CHR ''A'', CHR ''O''}"
proof -
  show "py_str x \<noteq> []" by (simp add: py_str_def nat_digits_nonempty)
  show "hd (py_str x) \<notin> {CHR ''T'', CHR ''F'', CHR ''A'', CHR ''O''}"
  proof (cases "x < 0")
    case True
    then show ?thesis by (simp add: py_str_def)
  next
    case False
    have "is_digit (hd (nat_digits (nat x)))"
      using nat_digits_nonempty nat_digits_digits hd_in_set by blast
    with False show ?thesis
      by (auto simp: py_str_def dest: is_digit_not_special)
  qed
qed

lemma Pi_filtered_example: "Pi 5 filtered_example 0 = Inr [{1, 2}, {2, 3}]"
  by code_simp

lemma err_bind_Inr: "err_bind m f = Inr y \<Longrightarrow> \<exists>x. m = Inr x \<and> f x = Inr y"
  by (cases m) (simp_all add: err_bind_def)

lemma err_bind_post:
  "err_bind m (\<lambda>l. err_bind (g l) (\<lambda>r. Inr (h r))) = Inr y \<Longrightarrow> \<exists>r'. y = h r'"
  by (auto dest!: err_bind_Inr)

lemma Pi_is_remove_subsumed: "Pi n d i = Inr r \<Longrightarrow> \<exists>r'. r = remove_subsumed r'"
proof (cases n)
  case 0
  assume "Pi n d i = Inr r"
  with 0 show ?thesis by simp
next
  case (Suc m)
  assume "Pi n d i = Inr r"
  then have "Pi (Suc m) d i = Inr r" using Suc by simp
  then show ?thesis
    unfolding Pi.simps by (rule err_bind_post)
qed

lemma remove_subsumed_distinct: "distinct (remove_subsumed r)"
  by (simp add: remove_subsumed_remdups)

lemma remove_subsumed_minimal:
  "a \<in> set (remove_subsumed r) \<Longrightarrow> b \<in> set (remove_subsumed r) \<Longrightarrow> \<not> b \<subset> a"
  by (auto simp: remove_subsumed_remdups)

subsection \<open>C3: the subsumption invariant of the reasons returned by Pi\<close>

text \<open>
  C3. Whatever the circuit, the node index and the recursion limit, a list that
  \<^verbatim>\<open>Pi\<close> returns holds no reason that is a strict superset of another reason of the
  list, and no reason twice.
\<close>

theorem Pi_subsumption_invariant:
  assumes "Pi n d i = Inr r"
  shows "(\<forall>a \<in> set r. \<forall>b \<in> set r. \<not> b \<subset> a) \<and> distinct r"
proof -
  from assms obtain r' where r: "r = remove_subsumed r'"
    using Pi_is_remove_subsumed by blast
  show ?thesis
    unfolding r using remove_subsumed_distinct remove_subsumed_minimal by blast
qed

theorem Pi_subsumption_invariant_witness:
  "Pi 5 filtered_example 0 = Inr [{1, 2}, {2, 3}]
   \<and> \<not> {1, 2} \<subset> {2, 3 :: int} \<and> \<not> {2, 3} \<subset> {1, 2 :: int}
   \<and> distinct [{1, 2}, {2, 3 :: int}]"
  using Pi_subsumption_invariant [OF Pi_filtered_example] Pi_filtered_example by simp

subsection \<open>C2: satisfiability and reason enumeration\<close>

text \<open>
  Whenever \<^verbatim>\<open>Pi(d, i)\<close> returns a list, \<^verbatim>\<open>is_satisfiable(d, i)\<close> returns too, under the
  same recursion limit, and returns true exactly when the list is not empty.
\<close>

lemma Pi_is_satisfiable_agree: "Pi n d i = Inr r \<Longrightarrow> is_satisfiable n d i = Inr (r \<noteq> [])"
proof (induction n arbitrary: i r)
  case 0
  then show ?case by simp
next
  case (Suc n)
  note IH = Suc.IH
  from Suc.prems obtain l r1 where l: "py_get (label d) i = Inr l"
    and r: "r = remove_subsumed r1"
    and body: "(if l = ''F'' then Inr []
        else if l = ''T'' then Inr [{}]
        else if l = ''A'' then
          err_bind (py_get (children d) i) (\<lambda>cs.
          err_bind (py_get cs 0) (\<lambda>j.
          err_bind (Pi n d j) (\<lambda>r0.
          for_loop [1..<length cs]
            (\<lambda>j r. err_bind (Pi n d (cs ! j)) (\<lambda>r'. Inr (prod_cart r r'))) r0)))
        else
          err_bind (py_get l 0) (\<lambda>c.
          if c = CHR ''O'' then
            err_bind (py_get (children d) i) (\<lambda>cs.
            err_bind (py_get cs 0) (\<lambda>j.
            err_bind (Pi n d j) (\<lambda>r0.
            for_loop [1..<length cs]
              (\<lambda>j r. err_bind (Pi n d (cs ! j)) (\<lambda>r'. Inr (r @ r'))) r0)))
          else err_bind (py_int l) (\<lambda>x. Inr [{x}]))) = Inr r1"
    unfolding Pi.simps err_bind_eq_Inr by auto
  have ne: "(r \<noteq> []) = (r1 \<noteq> [])"
    by (simp add: r remove_subsumed_Nil_iff)
  consider (F) "l = ''F''" | (T) "l = ''T''" | (A) "l = ''A''"
    | (O) c cs where "l = c # cs" "c = CHR ''O''"
    | (L) "l \<noteq> ''F''" "l \<noteq> ''T''" "l \<noteq> ''A''" "\<forall>cs. l \<noteq> CHR ''O'' # cs"
    by (cases l) auto
  then show ?case
  proof cases
    case F
    with body l ne show ?thesis by simp
  next
    case T
    with body l ne show ?thesis by auto
  next
    case A
    with body obtain cs j r0 where cs: "py_get (children d) i = Inr cs"
      and j: "py_get cs 0 = Inr j" and r0: "Pi n d j = Inr r0"
      and loop: "for_loop [1..<length cs]
            (\<lambda>j r. err_bind (Pi n d (cs ! j)) (\<lambda>r'. Inr (prod_cart r r'))) r0 = Inr r1"
      by (auto simp: err_bind_eq_Inr)
    from and_loop_agrees [OF IH loop] IH [OF r0] cs j l A ne show ?thesis
      by simp
  next
    case (O c cs')
    with body obtain cs j r0 where cs: "py_get (children d) i = Inr cs"
      and j: "py_get cs 0 = Inr j" and r0: "Pi n d j = Inr r0"
      and loop: "for_loop [1..<length cs]
            (\<lambda>j r. err_bind (Pi n d (cs ! j)) (\<lambda>r'. Inr (r @ r'))) r0 = Inr r1"
      by (auto simp: err_bind_eq_Inr)
    from or_loop_agrees [OF IH loop] IH [OF r0] cs j l O ne show ?thesis
      by simp
  next
    case L
    from body L obtain c where c: "py_get l 0 = Inr c"
      by (auto simp: err_bind_eq_Inr)
    then obtain cs where lc: "l = c # cs" by (cases l) auto
    with L have cO: "c \<noteq> CHR ''O''" by simp
    with body L c obtain x where x: "py_int l = Inr x" and r1: "r1 = [{x}]"
      by (auto simp: err_bind_eq_Inr)
    from py_int_first_char [OF x [unfolded lc]] have "c \<noteq> CHR ''F''" "c \<noteq> CHR ''A''"
      by auto
    with l lc r1 ne cO show ?thesis by simp
  qed
qed

text \<open>
  C2. The two disagree where \<^verbatim>\<open>Pi\<close> raises. The compiled text of a decision on
  variable 1 between the literals \<open>1\<close> and \<open>-1\<close> is loaded, \<^verbatim>\<open>consensus\<close> appends for
  the root a conjunction without children, node 3, and \<^verbatim>\<open>filter\<close> for the instance
  \<open>1 = true\<close> rewrites the literal \<open>-1\<close>. On the decision circuit so obtained
  \<^verbatim>\<open>is_satisfiable\<close> returns true at the first operand of the root, and \<^verbatim>\<open>Pi\<close> raises
  \<^verbatim>\<open>IndexError\<close> at \<^verbatim>\<open>decision.children[3][0]\<close>, where a conjunction of nothing has
  the one empty reason. The same happens before \<^verbatim>\<open>filter\<close>.
\<close>

theorem Pi_raises_on_childless_conjunction:
  "file_to_dDNNF tautology_text =
     Inr (Some \<lparr>children = [[1, 2], [], []], label = [''O1'', ''1'', ''-1'']\<rparr>)
   \<and> consensus \<lparr>children = [[1, 2], [], []], label = [''O1'', ''1'', ''-1'']\<rparr> =
       Inr \<lparr>children = [[1, 2, 3], [], [], []], label = [''O1'', ''1'', ''-1'', ''A'']\<rparr>
   \<and> filter_dDNNF \<lparr>children = [[1, 2, 3], [], [], []], label = [''O1'', ''1'', ''-1'', ''A'']\<rparr>
         [True] =
       Inr \<lparr>children = [[1, 2, 3], [], [], []], label = [''O1'', ''1'', ''F'', ''A'']\<rparr>
   \<and> is_satisfiable 5
         \<lparr>children = [[1, 2, 3], [], [], []], label = [''O1'', ''1'', ''F'', ''A'']\<rparr> 0 = Inr True
   \<and> Pi 5 \<lparr>children = [[1, 2, 3], [], [], []], label = [''O1'', ''1'', ''F'', ''A'']\<rparr> 0 =
       Inl IndexError
   \<and> is_satisfiable 5 tautology_example 0 = Inr True
   \<and> Pi 5 tautology_example 0 = Inl IndexError"
  by code_simp

lemma because_t_loop_True:
  "because_t_loop n d t = Inr True \<longleftrightarrow>
     (\<forall>(c, v) \<in> set t. \<exists>cd. condition d [c \<mapsto> \<not> v] = Inr cd \<and> is_satisfiable n cd 0 = Inr False)"
proof (induction t)
  case Nil
  show ?case by simp
next
  case (Cons p t)
  obtain c v where p: "p = (c, v)" by (cases p)
  define m where "m = [c \<mapsto> \<not> v]"
  have step: "because_t_loop n d (p # t) = Inr True \<longleftrightarrow>
      (\<exists>cd. condition d m = Inr cd \<and> is_satisfiable n cd 0 = Inr False)
      \<and> because_t_loop n d t = Inr True"
    unfolding p m_def because_t_loop.simps err_bind_eq_Inr by auto
  have all: "(\<forall>(c, v) \<in> set (p # t). \<exists>cd. condition d [c \<mapsto> \<not> v] = Inr cd \<and> is_satisfiable n cd 0 = Inr False)
      \<longleftrightarrow> (\<exists>cd. condition d m = Inr cd \<and> is_satisfiable n cd 0 = Inr False)
      \<and> (\<forall>(c, v) \<in> set t. \<exists>cd. condition d [c \<mapsto> \<not> v] = Inr cd \<and> is_satisfiable n cd 0 = Inr False)"
    unfolding p m_def by (simp only: list.set ball_simps prod.case)
  show ?case
    unfolding all step Cons.IH by (rule refl)
qed

subsection \<open>C1: because\<close>

text \<open>
  C1, amended. \<^verbatim>\<open>because_t(d, t)\<close> returns true if and only if conditioning
  \<^verbatim>\<open>negate(d)\<close> on \<open>t\<close> yields an unsatisfiable circuit and, for every literal of
  \<open>t\<close>, conditioning \<open>d\<close> on that one literal flipped yields an unsatisfiable circuit
  as well.
\<close>

theorem because_t_iff:
  "because_t n d t = Inr True \<longleftrightarrow>
     (\<exists>nd cd. negate d = Inr nd \<and> condition nd (map_of t) = Inr cd
              \<and> is_satisfiable n cd 0 = Inr False)
     \<and> (\<forall>(c, v) \<in> set t. \<exists>cd. condition d [c \<mapsto> \<not> v] = Inr cd
              \<and> is_satisfiable n cd 0 = Inr False)"
  unfolding because_t_def err_bind_eq_Inr
  by (auto simp: because_t_loop_True)

theorem because_t_iff_witness:
  "because_t 5 conjunction_example [(1, True), (2, True)] = Inr True
   \<and> (\<exists>nd cd. negate conjunction_example = Inr nd
         \<and> condition nd (map_of [(1, True), (2, True)]) = Inr cd
         \<and> is_satisfiable 5 cd 0 = Inr False)
   \<and> (\<exists>cd. condition conjunction_example [1 \<mapsto> \<not> True] = Inr cd
         \<and> is_satisfiable 5 cd 0 = Inr False)
   \<and> (\<exists>cd. condition conjunction_example [2 \<mapsto> \<not> True] = Inr cd
         \<and> is_satisfiable 5 cd 0 = Inr False)"
proof -
  have "because_t 5 conjunction_example [(1, True), (2, True)] = Inr True"
    by code_simp
  then show ?thesis
    using because_t_iff [of 5 conjunction_example "[(1, True), (2, True)]"]
    by (simp only: list.set ball_simps prod.case)
qed

text \<open>
  C1 as stated asks the flipped literals for satisfiable circuits. On the circuit of
  the literal \<open>1\<close> and the property \<open>1 = true\<close> the answer is true although the
  circuit conditioned on \<open>1 = false\<close> is unsatisfiable.
\<close>

theorem because_t_counterexample:
  "because_t 5 literal_example [(1, True)] = Inr True
   \<and> condition literal_example [1 \<mapsto> \<not> True] = Inr \<lparr>children = [[]], label = [''F'']\<rparr>
   \<and> is_satisfiable 5 \<lparr>children = [[]], label = [''F'']\<rparr> 0 = Inr False"
  by code_simp

subsection \<open>C5: double negation\<close>

lemma py_get_0_hd: "l \<noteq> [] \<Longrightarrow> py_get l 0 = Inr (hd l)"
  by (cases l) simp_all

lemma canonical_label_cases:
  assumes "canonical_label l"
  obtains (T) "l = ''T''" | (F) "l = ''F''" | (A) "l = ''A''"
    | (O) "l \<noteq> []" "hd l = CHR ''O''"
    | (L) x where "l = py_str x" "hd l \<notin> {CHR ''T'', CHR ''F'', CHR ''A'', CHR ''O''}" "l \<noteq> []"
  using assms py_str_first
  by (auto simp: canonical_label_def split: sum.splits)

lemma canonical_py_str: "canonical_label (py_str x)"
  by (simp add: canonical_label_def py_int_py_str)

lemma canonical_negated_label: "canonical_label l \<Longrightarrow> canonical_label (negated_label l)"
  by (erule canonical_label_cases)
     (auto simp: negated_label_def canonical_py_str, auto simp: canonical_label_def)

lemma negated_label_twice:
  assumes "canonical_label l"
  shows "negated_label (negated_label l) = (if hd l = CHR ''O'' then ''O'' else l)"
  using assms
proof (cases rule: canonical_label_cases)
  case (L x)
  have "negated_label l = py_str (- x)"
    using L py_str_first [of x] by (auto simp: negated_label_def py_int_py_str)
  moreover have "negated_label (py_str (- x)) = py_str x"
    using py_str_first [of "- x"] by (auto simp: negated_label_def py_int_py_str)
  ultimately show ?thesis using L by auto
qed (auto simp: negated_label_def)

lemma negate_step:
  assumes "canonical_label l"
  shows "err_bind (py_get l 0) (\<lambda>c.
           if c = CHR ''T'' then Inr (set_label nd i ''F'')
           else if c = CHR ''F'' then Inr (set_label nd i ''T'')
           else if c = CHR ''A'' then Inr (set_label nd i ''O'')
           else if c = CHR ''O'' then Inr (set_label nd i ''A'')
           else err_bind (py_int l) (\<lambda>x.
                Inr (set_label nd i (py_str (- x))))) = Inr (set_label nd i (negated_label l))"
  using assms
proof (cases rule: canonical_label_cases)
  case (L x)
  then show ?thesis
    using py_str_first [of x] by (auto simp: py_get_0_hd negated_label_def py_int_py_str)
qed (auto simp: py_get_0_hd negated_label_def)

lemma negate_canonical:
  assumes len: "length (children c) = length (label c)"
    and can: "list_all canonical_label (label c)"
  shows "\<exists>c1. negate c = Inr c1 \<and> children c1 = children c
           \<and> label c1 = map negated_label (label c)"
proof -
  define v where "v = length (label c)"
  define I where "I i nd \<longleftrightarrow> length (children nd) = v \<and> length (label nd) = v
      \<and> (\<forall>j<i. children nd ! j = children c ! j \<and> label nd ! j = negated_label (label c ! j))"
    for i and nd :: dDNNF
  define body where "body = (\<lambda>i negated_decision.
           err_bind (py_get (children c) (int i)) (\<lambda>cs.
           let nd = set_children negated_decision i cs in
           err_bind (py_get (label c ! i) 0) (\<lambda>ch.
           if ch = CHR ''T'' then Inr (set_label nd i ''F'')
           else if ch = CHR ''F'' then Inr (set_label nd i ''T'')
           else if ch = CHR ''A'' then Inr (set_label nd i ''O'')
           else if ch = CHR ''O'' then Inr (set_label nd i ''A'')
           else err_bind (py_int (label c ! i)) (\<lambda>x.
                Inr (set_label nd i (py_str (- x)))))))"
  have neg: "negate c = for_loop [0..<v] body (dDNNF_init (int v))"
    by (simp add: negate_def body_def v_def Let_def)
  have init: "I 0 (dDNNF_init (int v))"
    by (simp add: I_def dDNNF_init_def)
  have step: "\<exists>s'. body i s = Inr s' \<and> I (Suc i) s'" if "i < v" "I i s" for i s
  proof -
    from that can have cl: "canonical_label (label c ! i)"
      by (simp add: v_def list_all_length)
    have b: "body i s = Inr (set_label (set_children s i (children c ! i)) i (negated_label (label c ! i)))"
      unfolding body_def using that len negate_step [OF cl]
      by (simp add: v_def Let_def)
    have "I (Suc i) (set_label (set_children s i (children c ! i)) i (negated_label (label c ! i)))"
      using that by (auto simp: I_def set_label_def set_children_def nth_list_update less_Suc_eq)
    with b show ?thesis by blast
  qed
  from for_loop_upt_total [of I 0 "dDNNF_init (int v)" v body, OF init] step
  obtain c1 where c1: "for_loop [0..<v] body (dDNNF_init (int v)) = Inr c1" "I v c1"
    by auto
  from c1(2) have "children c1 = children c" "label c1 = map negated_label (label c)"
    using len by (auto simp: I_def v_def intro: nth_equalityI)
  with c1(1) neg show ?thesis by simp
qed

text \<open>
  C5, amended. For a circuit with as many child lists as labels and well-formed
  labels, \<^verbatim>\<open>negate(negate(c))\<close> has the children of \<open>c\<close> and, at every node, the label
  of \<open>c\<close>, except that a label beginning with \<^verbatim>\<open>'O'\<close> comes back as the bare \<^verbatim>\<open>'O'\<close>:
  the decision variable is lost.
\<close>

theorem negate_negate:
  assumes "length (children c) = length (label c)"
    and "list_all canonical_label (label c)"
  shows "\<exists>c1 c2. negate c = Inr c1 \<and> negate c1 = Inr c2
           \<and> children c2 = children c
           \<and> length (label c2) = length (label c)
           \<and> (\<forall>i < length (label c).
                 label c2 ! i = (if hd (label c ! i) = CHR ''O'' then ''O'' else label c ! i))"
proof -
  from negate_canonical [OF assms] obtain c1 where c1: "negate c = Inr c1"
    "children c1 = children c" "label c1 = map negated_label (label c)" by blast
  have "length (children c1) = length (label c1)" using c1 assms by simp
  moreover have "list_all canonical_label (label c1)"
    using assms(2) c1(3) by (simp add: list_all_length canonical_negated_label)
  ultimately obtain c2 where c2: "negate c1 = Inr c2"
    "children c2 = children c1" "label c2 = map negated_label (label c1)"
    using negate_canonical by blast
  have "label c2 ! i = (if hd (label c ! i) = CHR ''O'' then ''O'' else label c ! i)"
    if "i < length (label c)" for i
    using that assms(2) c1(3) c2(3) by (simp add: list_all_length negated_label_twice)
  with c1 c2 show ?thesis by simp
qed

theorem negate_negate_witness:
  "length (children decision_example) = length (label decision_example)
   \<and> list_all canonical_label (label decision_example)
   \<and> (\<exists>c1 c2. negate decision_example = Inr c1 \<and> negate c1 = Inr c2
         \<and> children c2 = children decision_example
         \<and> label c2 ! 0 = ''O'' \<and> label c2 ! 1 = ''A'' \<and> label c2 ! 5 = ''-1'')"
proof -
  have a: "length (children decision_example) = length (label decision_example)"
    by code_simp
  have b: "list_all canonical_label (label decision_example)"
    by code_simp
  from negate_negate [OF a b] obtain c1 c2 where h: "negate decision_example = Inr c1"
    "negate c1 = Inr c2" "children c2 = children decision_example"
    "\<forall>i < length (label decision_example).
       label c2 ! i = (if hd (label decision_example ! i) = CHR ''O'' then ''O''
                       else label decision_example ! i)"
    by blast
  from h(4) have "label c2 ! 0 = ''O''" "label c2 ! 1 = ''A''" "label c2 ! 5 = ''-1''"
    by (simp_all add: decision_example_def)
  with a b h(1-3) show ?thesis by blast
qed

text \<open>
  C5 as stated fails at a node labelled \<^verbatim>\<open>'O1'\<close>: the first negation writes
  \<^verbatim>\<open>'A'\<close>, the second \<^verbatim>\<open>'O'\<close>.
\<close>

theorem negate_negate_counterexample:
  "negate decision_example =
     Inr \<lparr>children = [[1, 2], [3, 4], [5, 6], [], [], [], []],
          label = [''A'', ''O'', ''O'', ''-1'', ''-2'', ''1'', ''-3'']\<rparr>
   \<and> negate \<lparr>children = [[1, 2], [3, 4], [5, 6], [], [], [], []],
               label = [''A'', ''O'', ''O'', ''-1'', ''-2'', ''1'', ''-3'']\<rparr> =
     Inr \<lparr>children = [[1, 2], [3, 4], [5, 6], [], [], [], []],
          label = [''O'', ''A'', ''A'', ''1'', ''2'', ''-1'', ''3'']\<rparr>
   \<and> label decision_example ! 0 = ''O1''"
  by code_simp

subsection \<open>C6 and C10: consensus\<close>

lemma py_get_0_iff: "py_get l 0 = Inr c \<longleftrightarrow> l \<noteq> [] \<and> c = hd l"
  by (cases l) auto

lemma py_get_in_range: "0 \<le> w \<Longrightarrow> w < int (length xs) \<Longrightarrow> py_get xs w = Inr (xs ! nat w)"
  by (simp add: py_get_def)

lemma nth_nat_mem: "0 \<le> w \<Longrightarrow> w < int (length xs) \<Longrightarrow> xs ! nat w \<in> set xs"
  by (simp add: nat_less_iff)

lemma py_int_single: "py_int [c] = (if is_digit c then Inr (int (digit_val c)) else Inl ValueError)"
proof (cases "is_int_space c")
  case True
  then have "\<not> is_digit c" using is_digit_not_special(1) by blast
  with True show ?thesis by (simp add: py_int_def int_strip_def)
next
  case False
  then have "int_strip [c] = [c]" by (simp add: int_strip_def)
  then show ?thesis
    using is_digit_not_special(2,3) [of c] by (auto simp: py_int_def)
qed

lemma consensus_inner:
  assumes "\<forall>w \<in> set ws. 0 \<le> w \<and> w < int (length L)"
  shows "for_loop ws
           (\<lambda>w cons. err_bind (py_get L w) (\<lambda>lw. Inr (if lw \<notin> S then cons @ [w] else cons))) acc
         = Inr (acc @ filter (\<lambda>w. L ! nat w \<notin> S) ws)"
  using assms by (induction ws arbitrary: acc) (simp_all add: py_get_in_range)

lemma consensus_body_Inr:
  assumes "consensus_body i s = Inr s'"
  shows "(\<not> is_Or (label s ! i) \<and> s' = s)
       \<or> (is_Or (label s ! i) \<and> i < length (children s)
          \<and> (\<exists>cons. s' = \<lparr>children = (children s @ [cons])
                                        [i := children s ! i @ [int (length (label s))]],
                            label = label s @ [''A'']\<rparr>))"
proof (cases "is_Or (label s ! i)")
  case True
  then have "py_get (label s ! i) 0 = Inr CHR ''O''"
    by (simp add: is_Or_def py_get_0_iff)
  with assms True show ?thesis
    unfolding consensus_body_def by (auto simp: err_bind_eq_Inr py_get_nat_Inr)
next
  case False
  with assms show ?thesis
    unfolding consensus_body_def by (auto simp: err_bind_eq_Inr py_get_0_iff is_Or_def)
qed

lemma consensus_body_total:
  assumes i: "i < length (label s)" and len: "length (children s) = length (label s)"
    and rng: "\<forall>cs \<in> set (children s). \<forall>w \<in> set cs. 0 \<le> w \<and> w < int (length (label s))"
    and ne: "label s ! i \<noteq> []"
    and or: "is_Or (label s ! i) \<Longrightarrow>
        2 \<le> length (label s ! i) \<and> is_digit (label s ! i ! 1) \<and> 2 \<le> length (children s ! i)"
  shows "\<exists>s'. consensus_body i s = Inr s'"
proof (cases "is_Or (label s ! i)")
  case False
  with ne have "py_get (label s ! i) 0 = Inr (hd (label s ! i))" "hd (label s ! i) \<noteq> CHR ''O''"
    by (simp_all add: py_get_0_iff is_Or_def)
  then show ?thesis by (simp add: consensus_body_def)
next
  case True
  define l where "l = label s ! i"
  define ci where "ci = children s ! i"
  from or [OF True] have l2: "2 \<le> length l" and dg: "is_digit (l ! 1)" and c2: "2 \<le> length ci"
    by (simp_all add: l_def ci_def)
  have g0: "py_get l 0 = Inr CHR ''O''"
    using True by (simp add: l_def is_Or_def py_get_0_iff)
  have g1: "py_get l 1 = Inr (l ! 1)"
    using l2 by (simp add: py_get_def)
  have gi: "py_get (children s) (int i) = Inr ci"
    using i len by (simp add: ci_def)
  have k0: "py_get ci 0 = Inr (ci ! 0)" and k1: "py_get ci 1 = Inr (ci ! 1)"
    using c2 by (auto simp: py_get_def)
  have ci_in: "ci \<in> set (children s)"
    using i len by (simp add: ci_def)
  have in0: "ci ! 0 \<in> set ci" and in1: "ci ! 1 \<in> set ci"
    using c2 by (auto intro: nth_mem)
  have r0: "0 \<le> ci ! 0 \<and> ci ! 0 < int (length (children s))"
    and r1: "0 \<le> ci ! 1 \<and> ci ! 1 < int (length (children s))"
    using rng ci_in in0 in1 len by auto
  define ck where "ck = children s ! nat (ci ! 0)"
  define cj where "cj = children s ! nat (ci ! 1)"
  have gk: "py_get (children s) (ci ! 0) = Inr ck" and gj: "py_get (children s) (ci ! 1) = Inr cj"
    using r0 r1 by (simp_all add: py_get_in_range ck_def cj_def)
  have "ck \<in> set (children s)" "cj \<in> set (children s)"
    using r0 r1 by (simp_all add: ck_def cj_def nth_nat_mem)
  then have ws: "\<forall>w \<in> set (ck @ cj). 0 \<le> w \<and> w < int (length (label s))"
    using rng by auto
  show ?thesis
    unfolding consensus_body_def l_def [symmetric]
    using g0 g1 dg gi k0 k1 gk gj
      consensus_inner [OF ws, of "{py_str (int (digit_val (l ! 1))), py_str (- int (digit_val (l ! 1)))}" "[]"]
    by (simp add: py_int_single)
qed

lemma or_count_Suc:
  "i < length (label d) \<Longrightarrow>
     or_count d (Suc i) = or_count d i + (if is_Or (label d ! i) then 1 else 0)"
  by (simp add: or_count_def take_Suc_conv_app_nth)

lemma py_get_Inr_mem: "py_get xs i = Inr x \<Longrightarrow> x \<in> set xs"
  by (auto simp: py_get_def nth_nat_mem split: if_splits)

lemma consensus_inner_subset:
  "for_loop ws
     (\<lambda>w cons. err_bind (py_get L w) (\<lambda>lw. Inr (if lw \<notin> S then cons @ [w] else cons))) acc
   = Inr cons' \<Longrightarrow> set cons' \<subseteq> set acc \<union> set ws"
proof (induction ws arbitrary: acc)
  case Nil
  then show ?case by simp
next
  case (Cons w ws)
  from Cons.prems obtain lw where
    "for_loop ws
       (\<lambda>w cons. err_bind (py_get L w) (\<lambda>lw. Inr (if lw \<notin> S then cons @ [w] else cons)))
       (if lw \<notin> S then acc @ [w] else acc) = Inr cons'"
    by (auto simp: err_bind_eq_Inr)
  from Cons.IH [OF this] show ?case
    by (auto split: if_splits)
qed

lemma consensus_body_Or:
  assumes "consensus_body i s = Inr s'" and "is_Or (label s ! i)"
  shows "i < length (children s) \<and>
         (\<exists>cons. set cons \<subseteq> \<Union> (set ` set (children s)) \<and>
            s' = \<lparr>children = (children s @ [cons])
                                [i := children s ! i @ [int (length (label s))]],
                  label = label s @ [''A'']\<rparr>)"
proof -
  from assms(2) have g0: "py_get (label s ! i) 0 = Inr CHR ''O''"
    by (simp add: is_Or_def py_get_0_iff)
  from assms(1) obtain x ci k j ck cj cons where
    gi: "py_get (children s) (int i) = Inr ci"
    and gk: "py_get (children s) k = Inr ck" and gj: "py_get (children s) j = Inr cj"
    and inner: "for_loop (ck @ cj)
            (\<lambda>w cons.
               err_bind (py_get (label s) w) (\<lambda>lw.
               Inr (if lw \<notin> {py_str x, py_str (- x)} then cons @ [w] else cons)))
            [] = Inr cons"
    and s': "s' = \<lparr>children = (children s @ [cons]) [i := ci @ [int (length (label s))]],
                  label = label s @ [''A'']\<rparr>"
    unfolding consensus_body_def g0 by (auto simp: err_bind_eq_Inr)
  from gi have i: "i < length (children s)" and ci: "ci = children s ! i"
    by (simp_all add: py_get_nat_Inr)
  from consensus_inner_subset [OF inner] py_get_Inr_mem [OF gk] py_get_Inr_mem [OF gj]
  have "set cons \<subseteq> \<Union> (set ` set (children s))" by auto
  with i ci s' show ?thesis by blast
qed

lemma consensus_body_not_Or:
  assumes "consensus_body i s = Inr s'" and "\<not> is_Or (label s ! i)"
  shows "s' = s"
  using assms consensus_body_Inr by blast

lemma consensus_inv_step:
  assumes len: "length (children d) = length (label d)"
    and i: "i < length (label d)" and inv: "consensus_inv d i s"
    and body: "consensus_body i s = Inr s'"
  shows "consensus_inv d (Suc i) s'"
proof -
  have li: "label s ! i = label d ! i"
    using inv i by (simp add: consensus_inv_def nth_append)
  show ?thesis
  proof (cases "is_Or (label d ! i)")
    case False
    with body li have "s' = s" by (simp add: consensus_body_not_Or)
    with inv False i show ?thesis
      by (auto simp: consensus_inv_def or_count_Suc less_Suc_eq)
  next
    case True
    with body li obtain cons where
      s': "s' = \<lparr>children = (children s @ [cons])
                                [i := children s ! i @ [int (length (label s))]],
                  label = label s @ [''A'']\<rparr>"
      using consensus_body_Or [of i s s'] by auto
    have ls: "length (label s) = length (label d) + or_count d i"
      using inv by (simp add: consensus_inv_def)
    have lc: "length (children s) = length (label d) + or_count d i"
      using inv by (simp add: consensus_inv_def)
    have ci: "children s ! i = children d ! i"
      using inv i by (simp add: consensus_inv_def)
    have lab: "label s' = label d @ replicate (or_count d (Suc i)) ''A''"
      using inv True i by (simp add: s' consensus_inv_def or_count_Suc replicate_append_same)
    have lch: "length (children s') = length (label d) + or_count d (Suc i)"
      using lc True i by (simp add: s' or_count_Suc)
    have nth: "children s' ! j =
           (if j < Suc i \<and> is_Or (label d ! j)
            then children d ! j @ [int (length (label d) + or_count d j)]
            else children d ! j)" if j: "j < length (label d)" for j
    proof (cases "j = i")
      case True
      with \<open>is_Or (label d ! i)\<close> i lc ci ls show ?thesis
        by (simp add: s')
    next
      case False
      with j lc have "children s' ! j = children s ! j"
        by (simp add: s' nth_append)
      with inv j False show ?thesis
        by (auto simp: consensus_inv_def less_Suc_eq)
    qed
    from lab lch nth show ?thesis
      by (simp add: consensus_inv_def)
  qed
qed

lemma consensus_inv_init:
  "length (children d) = length (label d) \<Longrightarrow> consensus_inv d 0 d"
  by (simp add: consensus_inv_def or_count_def)

lemma consensus_result:
  assumes len: "length (children d) = length (label d)" and c: "consensus d = Inr d'"
  shows "consensus_inv d (length (label d)) d'"
proof -
  from c have loop: "for_loop [0..<length (label d)] consensus_body d = Inr d'"
    by (simp add: consensus_def)
  show ?thesis
    by (rule for_loop_upt_partial [where I = "consensus_inv d", OF loop consensus_inv_init [OF len]])
       (simp_all add: consensus_inv_step [OF len])
qed

lemma consensus_body_range:
  assumes body: "consensus_body i s = Inr s'"
    and rng: "\<forall>cs \<in> set (children s). \<forall>w \<in> set cs. 0 \<le> w \<and> w < int (length (label s))"
  shows "\<forall>cs \<in> set (children s'). \<forall>w \<in> set cs. 0 \<le> w \<and> w < int (length (label s'))"
proof (cases "is_Or (label s ! i)")
  case False
  with body have "s' = s" by (rule consensus_body_not_Or)
  with rng show ?thesis by simp
next
  case True
  from consensus_body_Or [OF body True] obtain cons where i: "i < length (children s)"
    and cons: "set cons \<subseteq> \<Union> (set ` set (children s))"
    and s': "s' = \<lparr>children = (children s @ [cons])
                                [i := children s ! i @ [int (length (label s))]],
                  label = label s @ [''A'']\<rparr>"
    by blast
  have new: "\<forall>w \<in> set (children s ! i @ [int (length (label s))]).
      0 \<le> w \<and> w < int (length (label s)) + 1"
    using rng i by (auto simp: nth_mem dest!: bspec [where x = "children s ! i"])
  have old: "\<forall>cs \<in> set (children s @ [cons]). \<forall>w \<in> set cs. 0 \<le> w \<and> w < int (length (label s)) + 1"
    using rng cons by fastforce
  have sub: "set (children s') \<subseteq>
      insert (children s ! i @ [int (length (label s))]) (set (children s @ [cons]))"
    unfolding s' dDNNF.simps by (rule set_update_subset_insert)
  show ?thesis
  proof (intro ballI)
    fix cs w
    assume cs: "cs \<in> set (children s')" and w: "w \<in> set cs"
    from cs sub have "cs = children s ! i @ [int (length (label s))] \<or> cs \<in> set (children s @ [cons])"
      by blast
    then have "0 \<le> w \<and> w < int (length (label s)) + 1"
      using new old w by blast
    then show "0 \<le> w \<and> w < int (length (label s'))"
      by (simp add: s')
  qed
qed

lemma consensus_total:
  assumes len: "length (children d) = length (label d)" and ready: "consensus_ready d"
  shows "\<exists>d'. consensus d = Inr d'"
proof -
  define v where "v = length (label d)"
  define I where "I i s \<longleftrightarrow> consensus_inv d i s
      \<and> (\<forall>cs \<in> set (children s). \<forall>w \<in> set cs. 0 \<le> w \<and> w < int (length (label s)))"
    for i s
  from ready have r1: "\<forall>cs \<in> set (children d). \<forall>w \<in> set cs. 0 \<le> w \<and> w < int (length (label d))"
    by (simp add: consensus_ready_def list_all_iff)
  from ready have r2: "label d ! i \<noteq> [] \<and>
      (is_Or (label d ! i) \<longrightarrow>
         2 \<le> length (label d ! i) \<and> is_digit (label d ! i ! 1) \<and> 2 \<le> length (children d ! i))"
    if "i < v" for i
    using that by (simp add: consensus_ready_def list_all2_conv_all_nth v_def)
  have init: "I 0 d"
    using r1 by (simp add: I_def consensus_inv_init [OF len])
  have step: "\<exists>s'. consensus_body i s = Inr s' \<and> I (Suc i) s'" if i: "i < v" and inv: "I i s" for i s
  proof -
    from inv have ci: "consensus_inv d i s"
      and rng: "\<forall>cs \<in> set (children s). \<forall>w \<in> set cs. 0 \<le> w \<and> w < int (length (label s))"
      by (simp_all add: I_def)
    have li: "label s ! i = label d ! i" and chi: "children s ! i = children d ! i"
      and ll: "length (children s) = length (label s)" and il: "i < length (label s)"
      using ci i by (simp_all add: consensus_inv_def nth_append v_def)
    have "\<exists>s'. consensus_body i s = Inr s'"
      using r2 [OF i] by (intro consensus_body_total [OF il ll rng]) (simp_all add: li chi)
    then obtain s' where s': "consensus_body i s = Inr s'" ..
    have "consensus_inv d (Suc i) s'"
      using consensus_inv_step [OF len _ ci s'] i by (simp add: v_def)
    with consensus_body_range [OF s' rng] s' show ?thesis
      by (auto simp: I_def)
  qed
  from for_loop_upt_total [where I = I and body = consensus_body and k = 0 and v = v, OF init] step
  obtain d' where "for_loop [0..<v] consensus_body d = Inr d'" by auto
  then show ?thesis by (auto simp: consensus_def v_def)
qed

text \<open>
  C10. The loop of \<^verbatim>\<open>consensus\<close> runs over the \<open>v\<close> indices the circuit has on entry,
  so the call ends, with or without an exception; on a circuit that is ready it
  returns. Whenever it returns, on a circuit with one child list per label, it has
  appended one node labelled \<^verbatim>\<open>'A'\<close> for each of the \<open>k\<close> labels beginning with
  \<^verbatim>\<open>'O'\<close>, the circuit has \<open>v + k\<close> nodes, every such node has got exactly one more
  child, the index of the node appended for it, and every other original node has the
  children it had.
\<close>

theorem consensus_appends:
  assumes "length (children d) = length (label d)"
  shows "(consensus_ready d \<longrightarrow> (\<exists>d'. consensus d = Inr d'))
    \<and> (\<forall>d'. consensus d = Inr d' \<longrightarrow>
         label d' = label d @ replicate (length (filter is_Or (label d))) ''A''
         \<and> length (children d') = length (label d) + length (filter is_Or (label d))
         \<and> (\<forall>i < length (label d).
               children d' ! i =
                 (if is_Or (label d ! i)
                  then children d ! i @ [int (length (label d) + or_count d i)]
                  else children d ! i)))"
proof (intro conjI allI impI)
  assume "consensus_ready d"
  with assms show "\<exists>d'. consensus d = Inr d'" by (rule consensus_total)
next
  fix d' i
  assume c: "consensus d = Inr d'"
  note inv = consensus_result [OF assms c, unfolded consensus_inv_def]
  have k: "or_count d (length (label d)) = length (filter is_Or (label d))"
    by (simp add: or_count_def)
  show "label d' = label d @ replicate (length (filter is_Or (label d))) ''A''"
    using inv k by simp
  show "length (children d') = length (label d) + length (filter is_Or (label d))"
    using inv k by simp
  assume "i < length (label d)"
  then show "children d' ! i =
                 (if is_Or (label d ! i)
                  then children d ! i @ [int (length (label d) + or_count d i)]
                  else children d ! i)"
    using inv by simp
qed

theorem consensus_appends_witness:
  "length (children decision_example) = length (label decision_example)
   \<and> consensus_ready decision_example
   \<and> (\<exists>d'. consensus decision_example = Inr d'
         \<and> label d' = label decision_example @ [''A'']
         \<and> length (children d') = 8
         \<and> children d' ! 0 = [1, 2, 7] \<and> children d' ! 1 = [3, 4])"
proof -
  have a: "length (children decision_example) = length (label decision_example)"
    by code_simp
  have b: "consensus_ready decision_example"
    by code_simp
  have k: "length (filter is_Or (label decision_example)) = 1"
    and c0: "or_count decision_example 0 = 0"
    and l0: "is_Or (label decision_example ! 0)" and l1: "\<not> is_Or (label decision_example ! 1)"
    and n: "length (label decision_example) = 7"
    and ch: "children decision_example ! 0 = [1, 2]" "children decision_example ! 1 = [3, 4]"
    by code_simp+
  from consensus_appends [OF a] b obtain d' where d': "consensus decision_example = Inr d'"
    by blast
  with consensus_appends [OF a] have
    "label d' = label decision_example @ replicate (length (filter is_Or (label decision_example))) ''A''"
    "length (children d') = length (label decision_example) + length (filter is_Or (label decision_example))"
    "\<forall>i < length (label decision_example).
               children d' ! i =
                 (if is_Or (label decision_example ! i)
                  then children decision_example ! i @ [int (length (label decision_example) + or_count decision_example i)]
                  else children decision_example ! i)"
    by blast+
  then have "label d' = label decision_example @ [''A'']" "length (children d') = 8"
    "children d' ! 0 = [1, 2, 7]" "children d' ! 1 = [3, 4]"
    using k c0 l0 l1 n ch by simp_all
  with a b d' show ?thesis by blast
qed

text \<open>
  C6. The decision variable is read from one character. On a decision on variable 12
  between \<open>12 \<and> 1\<close> and \<open>\<not>12 \<and> 3\<close> the loop takes \<open>x = 1\<close>: the appended node 7 gets
  the children 3, 4 and 6, the literals \<open>12\<close>, \<open>-12\<close> and \<open>3\<close>, where the literals
  other than \<open>12\<close> and \<open>-12\<close> are the nodes 5 and 6.
\<close>

theorem consensus_two_digit:
  "consensus two_digit_example =
     Inr \<lparr>children = [[1, 2, 7], [3, 5], [4, 6], [], [], [], [], [3, 4, 6]],
          label = [''O12'', ''A'', ''A'', ''12'', ''-12'', ''1'', ''3'', ''A'']\<rparr>"
  by code_simp

subsection \<open>Consensus on the store and on values\<close>

lemma py_get_map: "py_get (map f xs) k = map_sum id f (py_get xs k)"
proof -
  have "nat k < length xs" if "0 \<le> k" "k < int (length xs)"
    using that by linarith
  moreover have "nat (int (length xs) + k) < length xs" if "k < 0" "- int (length xs) \<le> k"
    using that by linarith
  ultimately show ?thesis
    by (auto simp: py_get_def)
qed

lemma err_bind_map_sum: "err_bind (map_sum id f m) g = err_bind m (\<lambda>x. g (f x))"
  by (cases m) simp_all

lemma rel_sum_err_bind:
  assumes "\<And>x. m = Inr x \<Longrightarrow> rel_sum (=) R (f x) (g x)"
  shows "rel_sum (=) R (err_bind m f) (err_bind m g)"
  using assms by (cases m) simp_all

lemma for_loop_simulation:
  assumes "R s t"
    and "\<And>i s t. R s t \<Longrightarrow> rel_sum (=) R (f i s) (g i t)"
  shows "rel_sum (=) R (for_loop js f s) (for_loop js g t)"
  using assms(1)
proof (induction js arbitrary: s t)
  case Nil
  then show ?case by simp
next
  case (Cons j js)
  from assms(2) [OF Cons.prems, of j] show ?case
    by (cases "f j s"; cases "g j t") (simp_all add: Cons.IH)
qed

lemma view_after_append:
  assumes ok: "store_ok st c" and i: "i < length (children_ref c)"
  shows "map (\<lambda>r. ((st @ [cons])[children_ref c ! i := (st @ [cons]) ! (children_ref c ! i) @ [n]]) ! r)
           (children_ref c @ [length st])
       = (map (\<lambda>r. st ! r) (children_ref c) @ [cons])[i := st ! (children_ref c ! i) @ [n]]"
proof (rule nth_equalityI)
  show "length (map (\<lambda>r. ((st @ [cons])[children_ref c ! i := (st @ [cons]) ! (children_ref c ! i) @ [n]]) ! r)
           (children_ref c @ [length st]))
       = length ((map (\<lambda>r. st ! r) (children_ref c) @ [cons])[i := st ! (children_ref c ! i) @ [n]])"
    by simp
next
  fix j
  assume "j < length (map (\<lambda>r. ((st @ [cons])[children_ref c ! i := (st @ [cons]) ! (children_ref c ! i) @ [n]]) ! r)
           (children_ref c @ [length st]))"
  then have j: "j \<le> length (children_ref c)" by simp
  from ok have d: "distinct (children_ref c)" and r: "\<And>k. k < length (children_ref c) \<Longrightarrow> children_ref c ! k < length st"
    by (simp_all add: store_ok_def list_all_length)
  show "map (\<lambda>r. ((st @ [cons])[children_ref c ! i := (st @ [cons]) ! (children_ref c ! i) @ [n]]) ! r)
           (children_ref c @ [length st]) ! j
       = (map (\<lambda>r. st ! r) (children_ref c) @ [cons])[i := st ! (children_ref c ! i) @ [n]] ! j"
  proof (cases "j = length (children_ref c)")
    case True
    with i r [OF i] show ?thesis
      by (simp add: nth_append)
  next
    case False
    with j have jl: "j < length (children_ref c)" by simp
    show ?thesis
    proof (cases "j = i")
      case True
      with i r [OF i] show ?thesis by (simp add: nth_append)
    next
      case False
      with d i jl have "children_ref c ! j \<noteq> children_ref c ! i"
        by (simp add: nth_eq_iff_index_eq)
      with False jl r [OF jl] show ?thesis
        by (simp add: nth_append)
    qed
  qed
qed

lemma store_ok_after_append:
  assumes ok: "store_ok st c" and i: "i < length (children_ref c)"
  shows "store_ok ((st @ [cons])[children_ref c ! i := x])
           \<lparr>children_ref = children_ref c @ [length st], label_ref = l\<rparr>"
  using assms by (auto simp: store_ok_def list_all_iff less_Suc_eq)

lemma consensus_body_simulation:
  assumes "views d s"
  shows "rel_sum (=) views (consensus_body i d) (consensus_ref_body i s)"
proof -
  obtain st c where s: "s = (st, c)" by (cases s)
  with assms have d: "d = view st c" and ok: "store_ok st c"
    by (simp_all add: views_def)
  have lab: "label d = label_ref c" and ch: "children d = map (\<lambda>r. st ! r) (children_ref c)"
    by (simp_all add: d view_def)
  show ?thesis
    unfolding consensus_body_def consensus_ref_body_def s prod.case lab ch py_get_map err_bind_map_sum
  proof (rule rel_sum_err_bind)
    fix c0
    show "rel_sum (=) views
          (if c0 = CHR ''O''
           then err_bind (py_get (label_ref c ! i) 1)
                 (\<lambda>c1. err_bind (py_int [c1])
                        (\<lambda>x. err_bind (py_get (children_ref c) (int i))
                              (\<lambda>xa. err_bind (py_get (st ! xa) 0)
                                     (\<lambda>k. err_bind (py_get (st ! xa) 1)
                                           (\<lambda>j. err_bind (py_get (children_ref c) k)
                                                 (\<lambda>xb. err_bind (py_get (children_ref c) j)
                                                        (\<lambda>xc. err_bind
                                                               (for_loop (st ! xb @ st ! xc)
                                                                 (\<lambda>w cons. err_bind (py_get (label_ref c) w)
                                                                   (\<lambda>lw. Inr (if lw \<notin> {py_str x, py_str (- x)} then cons @ [w] else cons)))
                                                                 [])
                                                               (\<lambda>cons. Inr \<lparr>children = (map ((!) st) (children_ref c) @ [cons])[i := st ! xa @ [int (length (label_ref c))]],
                                                                              label = label_ref c @ [''A'']\<rparr>))))))))
           else Inr d)
          (if c0 = CHR ''O''
           then err_bind (py_get (label_ref c ! i) 1)
                 (\<lambda>c1. err_bind (py_int [c1])
                        (\<lambda>x. err_bind (py_get (children_ref c) (int i))
                              (\<lambda>ri. err_bind (py_get (st ! ri) 0)
                                     (\<lambda>k. err_bind (py_get (st ! ri) 1)
                                           (\<lambda>j. err_bind (py_get (children_ref c) k)
                                                 (\<lambda>rk. err_bind (py_get (children_ref c) j)
                                                        (\<lambda>rj. err_bind
                                                               (for_loop (st ! rk @ st ! rj)
                                                                 (\<lambda>w cons. err_bind (py_get (label_ref c) w)
                                                                   (\<lambda>lw. Inr (if lw \<notin> {py_str x, py_str (- x)} then cons @ [w] else cons)))
                                                                 [])
                                                               (\<lambda>cons. let st1 = st @ [cons]; refs1 = children_ref c @ [length st];
                                                                            st2 = st1[ri := st1 ! ri @ [int (length (label_ref c))]]
                                                                        in Inr (st2, \<lparr>children_ref = refs1, label_ref = label_ref c @ [''A'']\<rparr>)))))))))
           else Inr (st, c))"
    proof (cases "c0 = CHR ''O''")
      case False
      with assms s show ?thesis by simp
    next
      case True
      show ?thesis
      proof (simp only: True simp_thms if_True, intro rel_sum_err_bind)
        fix c1 x ri k j rk rj cons
        assume "py_get (children_ref c) (int i) = Inr ri"
        then have i: "i < length (children_ref c)" and ri: "ri = children_ref c ! i"
          by (simp_all add: py_get_nat_Inr)
        show "rel_sum (=) views
                (Inr \<lparr>children = (map ((!) st) (children_ref c) @ [cons])[i := st ! ri @ [int (length (label_ref c))]],
                      label = label_ref c @ [''A'']\<rparr>)
                (let st1 = st @ [cons]; refs1 = children_ref c @ [length st];
                     st2 = st1[ri := st1 ! ri @ [int (length (label_ref c))]]
                 in Inr (st2, \<lparr>children_ref = refs1, label_ref = label_ref c @ [''A'']\<rparr>))"
          using view_after_append [OF ok i, of cons "int (length (label_ref c))"]
            store_ok_after_append [OF ok i]
          by (simp add: views_def view_def Let_def ri)
      qed
    qed
  qed
qed

text \<open>
  On a circuit whose nodes share no child list, \<^verbatim>\<open>consensus\<close> on the store does what
  \<open>consensus\<close> does on the circuit it denotes: the same exception, or a circuit in the
  new store that denotes the result.
\<close>

lemma consensus_ref_refines:
  assumes "store_ok st c"
  shows "rel_sum (=) views (consensus (view st c)) (consensus_ref st c)"
proof -
  have "views (view st c) (st, c)"
    using assms by (simp add: views_def)
  then have "rel_sum (=) views
      (for_loop [0..<length (label_ref c)] consensus_body (view st c))
      (for_loop [0..<length (label_ref c)] consensus_ref_body (st, c))"
    by (rule for_loop_simulation) (rule consensus_body_simulation)
  then show ?thesis
    by (simp add: consensus_def consensus_ref_def view_def)
qed

subsection \<open>C7: the base circuit after evenIf_because_t\<close>

text \<open>
  C7. The copy shares its child lists with the base circuit, so the append that
  \<^verbatim>\<open>consensus\<close> makes to the children of a node labelled \<^verbatim>\<open>'O...'\<close> of the copy is
  an append to the children of that node of the base circuit. For the instance
  \<open>1, 2, 3\<close> all true, the property \<open>1 \<and> 2\<close> and the flipped variable 3, the call
  returns true, and afterwards node 0 of the base circuit has the children 1, 2 and 7,
  in a circuit that still has the seven nodes 0 to 6.
\<close>

theorem evenIf_because_t_shares_children:
  "view base_store base_ref = decision_example
   \<and> evenIf_because_t 5 base_store base_ref [1, 1, 1] [(1, True), (2, True)] {3} =
       Inr ([[1, 2, 7], [3, 4], [5, 6], [], [], [], [], [], [], [], [], [], [], [], [4, 6]], True)
   \<and> view [[1, 2, 7], [3, 4], [5, 6], [], [], [], [], [], [], [], [], [], [], [], [4, 6]] base_ref =
       \<lparr>children = [[1, 2, 7], [3, 4], [5, 6], [], [], [], []],
        label = [''O1'', ''A'', ''A'', ''1'', ''2'', ''-1'', ''3'']\<rparr>"
  by code_simp

subsection \<open>C8 and C9: the loader\<close>

lemma parses_Inr: "parses s \<Longrightarrow> \<exists>c. py_int s = Inr c"
  by (cases "py_int s") (simp_all add: parses_def)

lemma set_children_twice [simp]:
  "set_children (set_children d n a) n b = set_children d n b"
  by (simp add: set_children_def)

lemma children_set_children [simp]:
  "n < length (children d) \<Longrightarrow> children (set_children d n a) ! n = a"
  by (simp add: set_children_def)

lemma length_set_children [simp]:
  "length (children (set_children d n a)) = length (children d)"
  by (simp add: set_children_def)

lemma set_children_same: "children d ! n = [] \<Longrightarrow> set_children d n [] = d"
proof -
  assume "children d ! n = []"
  then have "(children d)[n := []] = children d"
    using list_update_id [of "children d" n] by simp
  then show ?thesis by (simp add: set_children_def)
qed

lemma children_loop:
  assumes "\<forall>j \<in> set js. 0 \<le> j \<and> nat j < length line \<and> parses (line ! nat j)"
    and "n < length (children decision)"
  shows "for_loop js
           (\<lambda>j decision.
              err_bind (py_get line j) (\<lambda>sj.
              err_bind (py_int sj) (\<lambda>c.
              Inr (set_children decision n (children decision ! n @ [v - c - 1])))))
           decision
         = Inr (set_children decision n
                  (children decision ! n @ map (\<lambda>j. v - projr (py_int (line ! nat j)) - 1) js))"
  using assms
proof (induction js arbitrary: decision)
  case Nil
  then show ?case
    by (simp add: set_children_def)
next
  case (Cons j js)
  from Cons.prems(1) have pj: "0 \<le> j" "nat j < length line" "parses (line ! nat j)"
    and rest: "\<forall>j \<in> set js. 0 \<le> j \<and> nat j < length line \<and> parses (line ! nat j)"
    by simp_all
  from pj have g: "py_get line j = Inr (line ! nat j)"
    by (simp add: py_get_in_range nat_less_iff)
  from pj obtain c where c: "py_int (line ! nat j) = Inr c"
    using parses_Inr by blast
  define d1 where "d1 = set_children decision n (children decision ! n @ [v - c - 1])"
  have n1: "n < length (children d1)"
    using Cons.prems(2) by (simp add: d1_def)
  have "for_loop (j # js)
           (\<lambda>j decision.
              err_bind (py_get line j) (\<lambda>sj.
              err_bind (py_int sj) (\<lambda>c.
              Inr (set_children decision n (children decision ! n @ [v - c - 1])))))
           decision
     = Inr (set_children d1 n
                  (children d1 ! n @ map (\<lambda>j. v - projr (py_int (line ! nat j)) - 1) js))"
    using Cons.IH [OF rest n1] by (simp add: g c d1_def)
  also have "\<dots> = Inr (set_children decision n
                  (children decision ! n @ map (\<lambda>j. v - projr (py_int (line ! nat j)) - 1) (j # js)))"
    using Cons.prems(2) by (simp add: d1_def c)
  finally show ?case .
qed

lemma file_to_dDNNF_body_ok:
  assumes ok: "node_line_loads line"
    and n: "nat (v - int i - 1) < length (children decision)"
    and empty: "children decision ! nat (v - int i - 1) = []"
  shows "file_to_dDNNF_body v i (decision, line, f) =
     Inr (set_label (set_children decision (nat (v - int i - 1)) (snd (expected_node v line)))
            (nat (v - int i - 1)) (fst (expected_node v line)),
          split_sp (strip (fst (readline f))), snd (readline f))"
proof -
  define m where "m = nat (v - int i - 1)"
  from ok have len: "2 \<le> length line" by (simp add: node_line_loads_def)
  then have g0: "py_get line 0 = Inr (line ! 0)" and g1: "py_get line 1 = Inr (line ! 1)"
    by (auto simp: py_get_def)
  have rl: "(let (l, f') = readline f in Inr (d, split_sp (strip l), f')) =
      (Inr (d, split_sp (strip (fst (readline f))), snd (readline f)) :: error + dDNNF \<times> string list \<times> string list)" for d
    by (simp add: case_prod_beta)
  consider (A) "line ! 0 = ''A''" | (O) "line ! 0 = ''O''" | (L) "line ! 0 \<noteq> ''A''" "line ! 0 \<noteq> ''O''"
    by blast
  then show ?thesis
  proof cases
    case A
    with ok obtain k where p1: "py_int (line ! 1) = Inr k"
      using parses_Inr [of "line ! 1"] by (auto simp: node_line_loads_def)
    with A ok have js: "\<forall>j \<in> set [2..k + 1]. 0 \<le> j \<and> nat j < length line \<and> parses (line ! nat j)"
      by (auto simp: node_line_loads_def list_all_iff)
    show ?thesis
    proof (cases "k = 0")
      case True
      with A p1 g0 g1 empty show ?thesis
        unfolding file_to_dDNNF_body_def m_def [symmetric]
        by (simp add: case_prod_beta expected_node_def set_children_same Let_def)
    next
      case False
      with A p1 g0 g1 empty n children_loop [OF js n, of v] show ?thesis
        unfolding file_to_dDNNF_body_def m_def [symmetric]
        by (simp add: case_prod_beta expected_node_def Let_def)
    qed
  next
    case O
    with ok have l3: "3 \<le> length line" and "parses (line ! 2)"
      by (auto simp: node_line_loads_def)
    then obtain k where p2: "py_int (line ! 2) = Inr k"
      using parses_Inr by blast
    with O ok have rest: "k \<noteq> 0 \<Longrightarrow> 5 \<le> length line
           \<and> (\<exists>c1 c2. py_int (line ! 3) = Inr c1 \<and> py_int (line ! 4) = Inr c2)"
      using parses_Inr [of "line ! 3"] parses_Inr [of "line ! 4"]
      by (auto simp: node_line_loads_def)
    from l3 have g2: "py_get line 2 = Inr (line ! 2)"
      by (auto simp: py_get_def)
    show ?thesis
    proof (cases "k = 0")
      case True
      with O p2 g0 g2 empty show ?thesis
        unfolding file_to_dDNNF_body_def m_def [symmetric]
        by (simp add: case_prod_beta expected_node_def set_children_same Let_def)
    next
      case False
      from rest [OF False] have g3: "py_get line 3 = Inr (line ! 3)" and g4: "py_get line 4 = Inr (line ! 4)"
        by (auto simp: py_get_def)
      from rest [OF False] obtain c1 c2 where
        cs: "py_int (line ! 3) = Inr c1" "py_int (line ! 4) = Inr c2" by blast
      from False O p2 g0 g1 g2 g3 g4 cs empty n show ?thesis
        unfolding file_to_dDNNF_body_def m_def [symmetric]
        by (simp add: case_prod_beta expected_node_def Let_def)
    qed
  next
    case L
    with g0 g1 empty show ?thesis
      unfolding file_to_dDNNF_body_def m_def [symmetric]
      by (simp add: case_prod_beta expected_node_def set_children_same Let_def)
  qed
qed

lemma split_sp_nonempty: "split_sp s \<noteq> []"
  by (induction s) (auto split: list.splits)

lemma readline_snd: "snd (readline f) = tl f"
  by (cases f) (simp_all add: readline_def)

lemma readline_fst_drop: "i < length ls \<Longrightarrow> fst (readline (drop i ls)) = ls ! i"
  by (cases "drop i ls") (auto simp: readline_def hd_drop_conv_nth [symmetric])

lemma py_int_Inl: "py_int s = Inl e \<Longrightarrow> e = ValueError"
  by (auto simp: py_int_def split: list.splits if_splits option.splits)

lemma nat_reversed_index: "i < nat v \<Longrightarrow> nat (v - int i - 1) = nat v - i - 1"
  by linarith

lemma node_line_ok_loads: "node_line_ok line \<Longrightarrow> node_line_loads line"
  by (simp add: node_line_ok_def node_line_loads_def split: if_splits)

lemma file_to_dDNNF_loads:
  assumes hs: "py_get (split_sp (strip h)) 1 = Inr s" and hv: "py_int s = Inr v"
    and lines: "nat v \<le> length ls"
    and ok: "\<forall>i < nat v. node_line_loads (split_sp (strip (ls ! i)))"
  shows "\<exists>d. file_to_dDNNF (h # ls) = Inr (Some d)
           \<and> length (label d) = nat v \<and> length (children d) = nat v
           \<and> (\<forall>i < nat v. (label d ! (nat v - i - 1), children d ! (nat v - i - 1))
                 = expected_node v (split_sp (strip (ls ! i))))"
proof -
  define I :: "nat \<Rightarrow> dDNNF \<times> string list \<times> string list \<Rightarrow> bool" where
    "I i = (\<lambda>(d, line, f).
        length (label d) = nat v \<and> length (children d) = nat v
        \<and> line = split_sp (strip (fst (readline (drop i ls)))) \<and> f = tl (drop i ls)
        \<and> (\<forall>j < i. (label d ! (nat v - j - 1), children d ! (nat v - j - 1))
                 = expected_node v (split_sp (strip (ls ! j))))
        \<and> (\<forall>m < nat v - i. children d ! m = []))" for i
  define st0 where "st0 = (dDNNF_init v, split_sp (strip (fst (readline ls))), snd (readline ls))"
  have unfold_file: "file_to_dDNNF (h # ls) =
      err_bind (for_loop [0..<nat v] (file_to_dDNNF_body v) st0)
        (\<lambda>(decision, line, f). Inr (Some decision))"
    using hs hv
    by (simp add: file_to_dDNNF_def readline_def split_sp_nonempty st0_def case_prod_beta Let_def)
  have init: "I 0 st0"
    by (simp add: I_def st0_def dDNNF_init_def readline_snd)
  have step: "\<exists>st'. file_to_dDNNF_body v i st = Inr st' \<and> I (Suc i) st'"
    if i: "i < nat v" and inv: "I i st" for i st
  proof -
    obtain d line f where st: "st = (d, line, f)" by (cases st)
    define n where "n = nat v - i - 1"
    have n: "nat (v - int i - 1) = n" "n < nat v"
      using i by (simp_all add: n_def nat_reversed_index)
    from inv i lines have len: "length (label d) = nat v" "length (children d) = nat v"
      and line: "line = split_sp (strip (ls ! i))" and f: "f = drop (Suc i) ls"
      and seen: "\<forall>j < i. (label d ! (nat v - j - 1), children d ! (nat v - j - 1))
                 = expected_node v (split_sp (strip (ls ! j)))"
      and fresh: "\<forall>m < nat v - i. children d ! m = []"
      by (simp_all add: I_def st readline_fst_drop drop_Suc tl_drop)
    from ok i line have lok: "node_line_loads line" by simp
    have empty: "children d ! n = []"
      using fresh i by (simp add: n_def)
    define d' where "d' = set_label (set_children d n (snd (expected_node v line))) n
        (fst (expected_node v line))"
    have body: "file_to_dDNNF_body v i st =
        Inr (d', split_sp (strip (fst (readline f))), snd (readline f))"
      using file_to_dDNNF_body_ok [OF lok, of v i d f] n len empty
      by (simp add: st d'_def)
    have d'n: "label d' ! n = fst (expected_node v line)" "children d' ! n = snd (expected_node v line)"
      and d'o: "\<And>m. m \<noteq> n \<Longrightarrow> label d' ! m = label d ! m \<and> children d' ! m = children d ! m"
      and d'l: "length (label d') = nat v" "length (children d') = nat v"
      using n len by (simp_all add: d'_def set_label_def set_children_def)
    have "(label d' ! (nat v - j - 1), children d' ! (nat v - j - 1))
                 = expected_node v (split_sp (strip (ls ! j)))" if "j < Suc i" for j
    proof (cases "j = i")
      case True
      then show ?thesis using d'n line by (simp add: n_def)
    next
      case False
      with that i have "j < i" "nat v - j - 1 \<noteq> n" by (auto simp: n_def)
      with seen d'o show ?thesis by simp
    qed
    moreover have "children d' ! m = []" if "m < nat v - Suc i" for m
      using that fresh d'o [of m] by (simp add: n_def)
    ultimately have "I (Suc i) (d', split_sp (strip (fst (readline f))), snd (readline f))"
      using d'l by (simp add: I_def f readline_snd)
    with body show ?thesis by blast
  qed
  from for_loop_upt_total [where I = I and k = 0 and v = "nat v" and body = "file_to_dDNNF_body v", OF init _ step]
  obtain st' where loop: "for_loop [0..<nat v] (file_to_dDNNF_body v) st0 = Inr st'" and fin: "I (nat v) st'"
    by auto
  obtain d line f where st': "st' = (d, line, f)" by (cases st')
  from fin have "length (label d) = nat v \<and> length (children d) = nat v
           \<and> (\<forall>i < nat v. (label d ! (nat v - i - 1), children d ! (nat v - i - 1))
                 = expected_node v (split_sp (strip (ls ! i))))"
    by (simp add: I_def st')
  moreover have "file_to_dDNNF (h # ls) = Inr (Some d)"
    by (simp add: unfold_file loop st')
  ultimately show ?thesis by blast
qed

text \<open>
  C9. The declared node count \<open>v\<close> is the second field of the header line. When at
  least \<open>v\<close> node lines follow and each of the first \<open>v\<close> is a node line the loader
  reads, \<^verbatim>\<open>file_to_dDNNF\<close> returns a circuit of \<open>v\<close> nodes in which the node of the
  \<open>i\<close>-th node line is at index \<open>v - i - 1\<close>, with the label and the translated
  children of \<open>expected_node\<close>; the last of the \<open>v\<close> lines is node 0.
\<close>

theorem file_to_dDNNF_wellformed:
  assumes hs: "py_get (split_sp (strip h)) 1 = Inr s" and hv: "py_int s = Inr v"
    and lines: "nat v \<le> length ls"
    and ok: "\<forall>i < nat v. node_line_ok (split_sp (strip (ls ! i)))"
  shows "\<exists>d. file_to_dDNNF (h # ls) = Inr (Some d)
           \<and> length (label d) = nat v \<and> length (children d) = nat v
           \<and> (\<forall>i < nat v. (label d ! (nat v - i - 1), children d ! (nat v - i - 1))
                 = expected_node v (split_sp (strip (ls ! i))))"
proof (rule file_to_dDNNF_loads [OF hs hv lines])
  show "\<forall>i < nat v. node_line_loads (split_sp (strip (ls ! i)))"
    using ok node_line_ok_loads by blast
qed

theorem file_to_dDNNF_wellformed_witness:
  "py_get (split_sp (strip ''nnf 7 6 3'')) 1 = Inr ''7'' \<and> py_int ''7'' = Inr 7
   \<and> nat 7 \<le> length (tl decision_example_text)
   \<and> list_all (\<lambda>l. node_line_ok (split_sp (strip l))) (tl decision_example_text)
   \<and> (\<exists>d. file_to_dDNNF decision_example_text = Inr (Some d)
         \<and> length (label d) = 7 \<and> length (children d) = 7
         \<and> (label d ! 0, children d ! 0) = (''O1'', [1, 2])
         \<and> (label d ! 6, children d ! 6) = (''3'', []))"
proof -
  have hs: "py_get (split_sp (strip ''nnf 7 6 3'')) 1 = Inr ''7''"
    by code_simp
  have hv: "py_int ''7'' = Inr 7"
    by code_simp
  have n: "nat 7 \<le> length (tl decision_example_text)"
    by code_simp
  have ok: "list_all (\<lambda>l. node_line_ok (split_sp (strip l))) (tl decision_example_text)"
    by code_simp
  have root: "expected_node 7 (split_sp (strip (tl decision_example_text ! 6))) = (''O1'', [1, 2])"
    by code_simp
  have leaf: "expected_node 7 (split_sp (strip (tl decision_example_text ! 0))) = (''3'', [])"
    by code_simp
  have whole: "''nnf 7 6 3'' # tl decision_example_text = decision_example_text"
    by (simp add: decision_example_text_def)
  have ok': "\<forall>i < nat 7. node_line_ok (split_sp (strip (tl decision_example_text ! i)))"
    using ok n by (simp only: list_all_length) simp
  from file_to_dDNNF_wellformed [OF hs hv n ok', unfolded whole] obtain d where
    d: "file_to_dDNNF decision_example_text = Inr (Some d)"
      "length (label d) = nat 7" "length (children d) = nat 7"
    and nodes: "\<forall>i < nat 7. (label d ! (nat 7 - i - 1), children d ! (nat 7 - i - 1))
          = expected_node 7 (split_sp (strip (tl decision_example_text ! i)))"
    by (elim exE conjE)
  have "(label d ! (nat 7 - 6 - 1), children d ! (nat 7 - 6 - 1)) = (''O1'', [1, 2])"
    using nodes [rule_format, of 6] by (simp add: root)
  moreover have "(label d ! (nat 7 - 0 - 1), children d ! (nat 7 - 0 - 1)) = (''3'', [])"
    using nodes [rule_format, of 0] by (simp add: leaf)
  ultimately have "(label d ! 0, children d ! 0) = (''O1'', [1, 2])"
    "(label d ! 6, children d ! 6) = (''3'', [])"
    by simp_all
  with d have "\<exists>d. file_to_dDNNF decision_example_text = Inr (Some d)
         \<and> length (label d) = 7 \<and> length (children d) = 7
         \<and> (label d ! 0, children d ! 0) = (''O1'', [1, 2])
         \<and> (label d ! 6, children d ! 6) = (''3'', [])"
    by (intro exI [of _ d]) simp
  with hs hv n ok show ?thesis
    by (intro conjI)
qed

text \<open>
  C8, amended. The loader has no format error of its own. A header line that is not
  blank and has a single field raises \<^verbatim>\<open>IndexError\<close>; a header line whose second
  field \<^verbatim>\<open>int\<close> rejects raises \<^verbatim>\<open>ValueError\<close>; and a tag other than \<^verbatim>\<open>A\<close> and \<^verbatim>\<open>O\<close>
  is not rejected: a text whose header declares \<open>v\<close> nodes and whose first \<open>v\<close> node
  lines the loader reads is loaded, and each of these lines with such a tag gives
  a leaf labelled with the second field of the line.
\<close>

theorem file_to_dDNNF_malformed:
  "(strip h \<noteq> [] \<and> length (split_sp (strip h)) < 2 \<longrightarrow> file_to_dDNNF (h # ls) = Inl IndexError)
   \<and> (\<forall>s. py_get (split_sp (strip h)) 1 = Inr s \<and> isl (py_int s)
          \<longrightarrow> file_to_dDNNF (h # ls) = Inl ValueError)
   \<and> (\<forall>s v. py_get (split_sp (strip h)) 1 = Inr s \<and> py_int s = Inr v \<and> nat v \<le> length ls
          \<and> (\<forall>i < nat v. node_line_loads (split_sp (strip (ls ! i))))
          \<longrightarrow> (\<exists>d. file_to_dDNNF (h # ls) = Inr (Some d)
                 \<and> (\<forall>i < nat v. split_sp (strip (ls ! i)) ! 0 \<notin> {''A'', ''O''}
                       \<longrightarrow> label d ! (nat v - i - 1) = split_sp (strip (ls ! i)) ! 1
                           \<and> children d ! (nat v - i - 1) = [])))"
proof (intro conjI allI impI)
  assume "strip h \<noteq> [] \<and> length (split_sp (strip h)) < 2"
  then have "py_get (split_sp (strip h)) 1 = Inl IndexError"
    by (simp add: py_get_def)
  then show "file_to_dDNNF (h # ls) = Inl IndexError"
    by (simp add: file_to_dDNNF_def readline_def split_sp_nonempty Let_def)
next
  fix s
  assume a: "py_get (split_sp (strip h)) 1 = Inr s \<and> isl (py_int s)"
  then obtain e where "py_int s = Inl e" by (cases "py_int s") auto
  with py_int_Inl have "py_int s = Inl ValueError" by blast
  with a show "file_to_dDNNF (h # ls) = Inl ValueError"
    by (simp add: file_to_dDNNF_def readline_def split_sp_nonempty Let_def)
next
  fix s v
  assume a: "py_get (split_sp (strip h)) 1 = Inr s \<and> py_int s = Inr v \<and> nat v \<le> length ls
          \<and> (\<forall>i < nat v. node_line_loads (split_sp (strip (ls ! i))))"
  then obtain d where d: "file_to_dDNNF (h # ls) = Inr (Some d)"
    and nodes: "\<forall>i < nat v. (label d ! (nat v - i - 1), children d ! (nat v - i - 1))
                 = expected_node v (split_sp (strip (ls ! i)))"
    using file_to_dDNNF_loads [of h s v ls] by blast
  have "label d ! (nat v - i - 1) = split_sp (strip (ls ! i)) ! 1
        \<and> children d ! (nat v - i - 1) = []"
    if "i < nat v" "split_sp (strip (ls ! i)) ! 0 \<notin> {''A'', ''O''}" for i
    using nodes [rule_format, OF that(1)] that(2) by (simp add: expected_node_def)
  with d show "\<exists>d. file_to_dDNNF (h # ls) = Inr (Some d)
                 \<and> (\<forall>i < nat v. split_sp (strip (ls ! i)) ! 0 \<notin> {''A'', ''O''}
                       \<longrightarrow> label d ! (nat v - i - 1) = split_sp (strip (ls ! i)) ! 1
                           \<and> children d ! (nat v - i - 1) = [])"
    by blast
qed

theorem file_to_dDNNF_malformed_witness:
  "strip ''nnf'' \<noteq> [] \<and> length (split_sp (strip ''nnf'')) < 2
   \<and> file_to_dDNNF [''nnf''] = Inl IndexError
   \<and> py_get (split_sp (strip ''nnf x'')) 1 = Inr ''x'' \<and> isl (py_int ''x'')
   \<and> file_to_dDNNF [''nnf x''] = Inl ValueError
   \<and> py_get (split_sp (strip ''nnf 1 0 1'')) 1 = Inr ''1'' \<and> py_int ''1'' = Inr 1
   \<and> nat 1 \<le> length [''X 5''] \<and> node_line_loads (split_sp (strip ''X 5''))
   \<and> (\<exists>d. file_to_dDNNF [''nnf 1 0 1'', ''X 5''] = Inr (Some d)
         \<and> label d ! 0 = ''5'' \<and> children d ! 0 = [])"
proof -
  have a: "strip ''nnf'' \<noteq> []" "length (split_sp (strip ''nnf'')) < 2"
    by code_simp+
  have b: "py_get (split_sp (strip ''nnf x'')) 1 = Inr ''x''" "isl (py_int ''x'')"
    by code_simp+
  have c: "py_get (split_sp (strip ''nnf 1 0 1'')) 1 = Inr ''1''" "py_int ''1'' = Inr 1"
    "nat 1 \<le> length [''X 5'']" "node_line_loads (split_sp (strip ''X 5''))"
    by code_simp+
  have tag: "split_sp (strip ''X 5'') = [''X'', ''5'']"
    by code_simp
  have m1: "file_to_dDNNF [''nnf''] = Inl IndexError"
    by (rule file_to_dDNNF_malformed [THEN conjunct1, rule_format, OF conjI [OF a]])
  have m2: "file_to_dDNNF [''nnf x''] = Inl ValueError"
    by (rule file_to_dDNNF_malformed [THEN conjunct2, THEN conjunct1, rule_format, OF conjI [OF b]])
  have all: "\<forall>i < nat 1. node_line_loads (split_sp (strip ([''X 5''] ! i)))"
    using c(4) by simp
  from file_to_dDNNF_malformed [THEN conjunct2, THEN conjunct2, rule_format,
      OF conjI [OF c(1) conjI [OF c(2) conjI [OF c(3) all]]]]
  obtain d where d: "file_to_dDNNF [''nnf 1 0 1'', ''X 5''] = Inr (Some d)"
    and leaf: "\<forall>i < nat 1. split_sp (strip ([''X 5''] ! i)) ! 0 \<notin> {''A'', ''O''}
                       \<longrightarrow> label d ! (nat 1 - i - 1) = split_sp (strip ([''X 5''] ! i)) ! 1
                           \<and> children d ! (nat 1 - i - 1) = []"
    by (elim exE conjE)
  from leaf [rule_format, of 0] have "label d ! 0 = ''5''" "children d ! 0 = []"
    by (simp_all add: tag)
  with d have m3: "\<exists>d. file_to_dDNNF [''nnf 1 0 1'', ''X 5''] = Inr (Some d)
         \<and> label d ! 0 = ''5'' \<and> children d ! 0 = []"
    by (intro exI [of _ d]) simp
  show ?thesis
    by (intro conjI a b c m1 m2 m3)
qed

text \<open>
  C8 as stated fails on a node line with the tag \<^verbatim>\<open>X\<close>, which is read as the literal
  leaf \<^verbatim>\<open>'5'\<close>, and on malformed headers, which raise \<^verbatim>\<open>IndexError\<close> and
  \<^verbatim>\<open>ValueError\<close>.
\<close>

theorem file_to_dDNNF_counterexample:
  "file_to_dDNNF [''nnf 1 0 1'', ''X 5''] = Inr (Some \<lparr>children = [[]], label = [''5'']\<rparr>)
   \<and> file_to_dDNNF [''nnf''] = Inl IndexError
   \<and> file_to_dDNNF [''nnf x 0 1'', ''L 5''] = Inl ValueError"
  by code_simp

subsection \<open>C4: necessary reason\<close>

lemma for_loop_partial:
  assumes "for_loop js body s = Inr s'" and "P s"
    and "\<And>j s s'. j \<in> set js \<Longrightarrow> P s \<Longrightarrow> body j s = Inr s' \<Longrightarrow> P s'"
  shows "P s'"
  using assms
proof (induction js arbitrary: s)
  case Nil
  then show ?case by simp
next
  case (Cons j js)
  from Cons.prems(1) obtain s1 where s1: "body j s = Inr s1" and rest: "for_loop js body s1 = Inr s'"
    by (auto simp: err_bind_eq_Inr)
  have "P s1" using Cons.prems(3) [OF _ Cons.prems(2) s1] by simp
  show ?case
  proof (rule Cons.IH [OF rest \<open>P s1\<close>])
    fix i t t'
    assume "i \<in> set js" "P t" "body i t = Inr t'"
    then show "P t'" using Cons.prems(3) [of i t t'] by simp
  qed
qed

lemma and_loop_mono:
  assumes "\<And>j. j \<in> set js \<Longrightarrow> g j = Inr True \<Longrightarrow> g' j \<noteq> Inr False"
    and "m = Inr True \<Longrightarrow> m' \<noteq> Inr False"
    and "err_bind m (for_loop js (\<lambda>j boolean. if boolean then g j else Inr False)) = Inr True"
  shows "err_bind m' (for_loop js (\<lambda>j boolean. if boolean then g' j else Inr False)) \<noteq> Inr False"
  using assms
proof (induction js arbitrary: m m')
  case Nil
  then show ?case by (cases m; cases m') auto
next
  case (Cons j js)
  let ?f = "\<lambda>j boolean. if boolean then g j else Inr False"
  let ?f' = "\<lambda>j boolean. if boolean then g' j else Inr False"
  have e: "err_bind m (for_loop (j # js) ?f) = err_bind (err_bind m (?f j)) (for_loop js ?f)"
    by (cases m) simp_all
  have e': "err_bind m' (for_loop (j # js) ?f') = err_bind (err_bind m' (?f' j)) (for_loop js ?f')"
    by (cases m') simp_all
  have step: "err_bind m' (?f' j) \<noteq> Inr False" if t: "err_bind m (?f j) = Inr True"
  proof -
    from t have m: "m = Inr True" and g: "g j = Inr True"
      by (cases m; auto split: if_splits)+
    from Cons.prems(2) [OF m] Cons.prems(1) [OF _ g] show ?thesis
      by (cases m') auto
  qed
  have prem3: "err_bind (err_bind m (?f j)) (for_loop js ?f) = Inr True"
    using Cons.prems(3) by (simp only: e)
  have prem1: "\<And>i. i \<in> set js \<Longrightarrow> g i = Inr True \<Longrightarrow> g' i \<noteq> Inr False"
    using Cons.prems(1) by simp
  show ?case
    unfolding e' by (rule Cons.IH [OF prem1 step prem3])
qed

lemma or_loop_mono:
  assumes "\<And>j. j \<in> set js \<Longrightarrow> g j = Inr True \<Longrightarrow> g' j \<noteq> Inr False"
    and "m = Inr True \<Longrightarrow> m' \<noteq> Inr False"
    and "err_bind m (for_loop js (\<lambda>j boolean. if boolean then Inr True else g j)) = Inr True"
  shows "err_bind m' (for_loop js (\<lambda>j boolean. if boolean then Inr True else g' j)) \<noteq> Inr False"
  using assms
proof (induction js arbitrary: m m')
  case Nil
  then show ?case by (cases m; cases m') auto
next
  case (Cons j js)
  let ?f = "\<lambda>j boolean. if boolean then Inr True else g j"
  let ?f' = "\<lambda>j boolean. if boolean then Inr True else g' j"
  have e: "err_bind m (for_loop (j # js) ?f) = err_bind (err_bind m (?f j)) (for_loop js ?f)"
    by (cases m) simp_all
  have e': "err_bind m' (for_loop (j # js) ?f') = err_bind (err_bind m' (?f' j)) (for_loop js ?f')"
    by (cases m') simp_all
  have step: "err_bind m' (?f' j) \<noteq> Inr False" if t: "err_bind m (?f j) = Inr True"
  proof (cases "m = Inr True")
    case True
    from Cons.prems(2) [OF True] show ?thesis
      by (cases m') auto
  next
    case False
    with t have g: "g j = Inr True"
      by (cases m; auto split: if_splits)
    from Cons.prems(1) [OF _ g] show ?thesis
      by (cases m') auto
  qed
  have prem3: "err_bind (err_bind m (?f j)) (for_loop js ?f) = Inr True"
    using Cons.prems(3) by (simp only: e)
  have prem1: "\<And>i. i \<in> set js \<Longrightarrow> g i = Inr True \<Longrightarrow> g' i \<noteq> Inr False"
    using Cons.prems(1) by simp
  show ?case
    unfolding e' by (rule Cons.IH [OF prem1 step prem3])
qed

lemma py_get_same_length:
  assumes "length xs = length ys" and "py_get xs i = Inr x"
  shows "\<exists>j < length xs. x = xs ! j \<and> py_get ys i = Inr (ys ! j)"
proof -
  have "nat i < length xs" if "0 \<le> i" "i < int (length xs)"
    using that by linarith
  moreover have "nat (int (length xs) + i) < length xs" if "i < 0" "- int (length xs) \<le> i"
    using that by linarith
  ultimately show ?thesis
    using assms by (auto simp: py_get_def split: if_splits)
qed

lemma is_satisfiable_mono:
  assumes mc: "more_conditioned cd' cd"
  shows "is_satisfiable n cd i = Inr True \<Longrightarrow> is_satisfiable n cd' i \<noteq> Inr False"
proof (induction n arbitrary: i)
  case 0
  then show ?case by simp
next
  case (Suc n)
  note IH = Suc.IH
  from mc have ch: "children cd = children cd'" and len: "length (label cd) = length (label cd')"
    by (simp_all add: more_conditioned_def)
  from Suc.prems obtain l where l: "py_get (label cd) i = Inr l"
    by (auto simp: err_bind_eq_Inr)
  from py_get_same_length [OF len l] obtain j where j: "j < length (label cd)" "l = label cd ! j"
    and l': "py_get (label cd') i = Inr (label cd' ! j)" by blast
  define l1 where "l1 = label cd' ! j"
  from mc j len have rel: "l = l1 \<or> (l1 \<noteq> [] \<and> hd l1 \<notin> {CHR ''O'', CHR ''A'', CHR ''T'', CHR ''F''})"
    by (auto simp: more_conditioned_def l1_def)
  show ?case
  proof (cases "l = l1")
    case False
    with rel have "l1 \<noteq> []" "hd l1 \<notin> {CHR ''O'', CHR ''A'', CHR ''T'', CHR ''F''}" by auto
    then have "is_satisfiable (Suc n) cd' i = Inr True"
      using l' by (simp add: l1_def [symmetric] py_get_0_hd)
    then show ?thesis by simp
  next
    case True
    from Suc.prems l obtain c where c: "py_get l 0 = Inr c"
      by (auto simp: err_bind_eq_Inr)
    have l'': "py_get (label cd') i = Inr l" using l' True by (simp add: l1_def)
    consider (F) "c = CHR ''F''" | (A) "c = CHR ''A''" | (O) "c = CHR ''O''"
      | (L) "c \<noteq> CHR ''F''" "c \<noteq> CHR ''A''" "c \<noteq> CHR ''O''" by blast
    then show ?thesis
    proof cases
      case F
      with Suc.prems l c show ?thesis by simp
    next
      case A
      with Suc.prems l c obtain cs j0 where cs: "py_get (children cd) i = Inr cs"
        and j0: "py_get cs 0 = Inr j0"
        and loop: "err_bind (is_satisfiable n cd j0)
            (for_loop [1..<length cs]
               (\<lambda>j boolean. if boolean then is_satisfiable n cd (cs ! j) else Inr False)) = Inr True"
        by (auto simp: err_bind_eq_Inr)
      have "err_bind (is_satisfiable n cd' j0)
            (for_loop [1..<length cs]
               (\<lambda>j boolean. if boolean then is_satisfiable n cd' (cs ! j) else Inr False)) \<noteq> Inr False"
        by (rule and_loop_mono [OF _ _ loop]) (auto dest: IH)
      moreover have "is_satisfiable (Suc n) cd' i = err_bind (is_satisfiable n cd' j0)
            (for_loop [1..<length cs]
               (\<lambda>j boolean. if boolean then is_satisfiable n cd' (cs ! j) else Inr False))"
        using l'' c A cs j0 ch by simp
      ultimately show ?thesis by simp
    next
      case O
      with Suc.prems l c obtain cs j0 where cs: "py_get (children cd) i = Inr cs"
        and j0: "py_get cs 0 = Inr j0"
        and loop: "err_bind (is_satisfiable n cd j0)
            (for_loop [1..<length cs]
               (\<lambda>j boolean. if boolean then Inr True else is_satisfiable n cd (cs ! j))) = Inr True"
        by (auto simp: err_bind_eq_Inr)
      have "err_bind (is_satisfiable n cd' j0)
            (for_loop [1..<length cs]
               (\<lambda>j boolean. if boolean then Inr True else is_satisfiable n cd' (cs ! j))) \<noteq> Inr False"
        by (rule or_loop_mono [OF _ _ loop]) (auto dest: IH)
      moreover have "is_satisfiable (Suc n) cd' i = err_bind (is_satisfiable n cd' j0)
            (for_loop [1..<length cs]
               (\<lambda>j boolean. if boolean then Inr True else is_satisfiable n cd' (cs ! j)))"
        using l'' c O cs j0 ch by simp
      ultimately show ?thesis by simp
    next
      case L
      with l'' c show ?thesis by simp
    qed
  qed
qed

lemma condition_Inr:
  assumes "condition d a = Inr cd"
  shows "length (label cd) = length (label d) \<and> length (children cd) = length (label d)
    \<and> (\<forall>i < length (label d). children cd ! i = children d ! i
           \<and> conditioned_label a (label d ! i) (label cd ! i))"
proof -
  define v where "v = length (label d)"
  define I where "I i s \<longleftrightarrow> length (label s) = v \<and> length (children s) = v
      \<and> (\<forall>j < i. children s ! j = children d ! j \<and> conditioned_label a (label d ! j) (label s ! j))"
    for i and s :: dDNNF
  define body where "body = (\<lambda>i conditioned_decision.
           err_bind (py_get (children d) (int i)) (\<lambda>cs.
           let cd = set_children conditioned_decision i cs in
           err_bind (py_get (label d ! i) 0) (\<lambda>c.
           if c \<notin> {CHR ''O'', CHR ''A'', CHR ''T'', CHR ''F''} then
             err_bind (py_int (label d ! i)) (\<lambda>x.
             let y = \<bar>x\<bar> in
             (case a y of
                Some ay \<Rightarrow>
                  if (x > 0 \<and> ay) \<or> (x < 0 \<and> \<not> ay) then Inr (set_label cd i ''T'')
                  else Inr (set_label cd i ''F'')
              | None \<Rightarrow> Inr (set_label cd i (label d ! i))))
           else Inr (set_label cd i (label d ! i)))))"
  have loop: "for_loop [0..<v] body (dDNNF_init (int v)) = Inr cd"
    using assms by (simp add: condition_def body_def v_def Let_def)
  have init: "I 0 (dDNNF_init (int v))"
    by (simp add: I_def dDNNF_init_def)
  have step: "I (Suc i) s'" if i: "i < v" and inv: "I i s" and b: "body i s = Inr s'" for i s s'
  proof -
    from b obtain cs c where cs: "py_get (children d) (int i) = Inr cs"
      and c: "py_get (label d ! i) 0 = Inr c"
      and r: "(if c \<notin> {CHR ''O'', CHR ''A'', CHR ''T'', CHR ''F''} then
             err_bind (py_int (label d ! i)) (\<lambda>x.
             let y = \<bar>x\<bar> in
             (case a y of
                Some ay \<Rightarrow>
                  if (x > 0 \<and> ay) \<or> (x < 0 \<and> \<not> ay) then Inr (set_label (set_children s i cs) i ''T'')
                  else Inr (set_label (set_children s i cs) i ''F'')
              | None \<Rightarrow> Inr (set_label (set_children s i cs) i (label d ! i))))
           else Inr (set_label (set_children s i cs) i (label d ! i))) = Inr s'"
      unfolding body_def by (auto simp: err_bind_eq_Inr Let_def)
    from cs have csi: "cs = children d ! i" by (simp add: py_get_nat_Inr)
    from c have ne: "label d ! i \<noteq> []" and hd: "c = hd (label d ! i)"
      by (simp_all add: py_get_0_iff)
    have "\<exists>l2. s' = set_label (set_children s i cs) i l2 \<and> conditioned_label a (label d ! i) l2"
    proof (cases "c \<notin> {CHR ''O'', CHR ''A'', CHR ''T'', CHR ''F''}")
      case False
      with r ne hd show ?thesis by (auto simp: conditioned_label_def)
    next
      case True
      with r obtain x where x: "py_int (label d ! i) = Inr x"
        by (cases "py_int (label d ! i)") auto
      define l2 where "l2 = (case a \<bar>x\<bar> of
                    Some ay \<Rightarrow> if (x > 0 \<and> ay) \<or> (x < 0 \<and> \<not> ay) then ''T'' else ''F''
                  | None \<Rightarrow> label d ! i)"
      from r True x have "s' = set_label (set_children s i cs) i l2"
        by (auto simp: l2_def Let_def split: option.splits if_splits)
      moreover have "conditioned_label a (label d ! i) l2"
        using True ne hd x by (auto simp: conditioned_label_def l2_def)
      ultimately show ?thesis by blast
    qed
    then obtain l2 where s': "s' = set_label (set_children s i cs) i l2"
      and cl: "conditioned_label a (label d ! i) l2" by blast
    from inv i show ?thesis
      unfolding I_def s' using cl csi
      by (auto simp: set_label_def set_children_def nth_list_update less_Suc_eq)
  qed
  have "I v cd"
    by (rule for_loop_upt_partial [where I = I, OF loop init]) (simp_all add: step)
  then show ?thesis by (simp add: I_def v_def)
qed

lemma conditioned_more:
  assumes c': "condition d a' = Inr cd'" and c: "condition d a = Inr cd"
    and sub: "\<And>y b. a' y = Some b \<Longrightarrow> a y = Some b"
  shows "more_conditioned cd' cd"
proof -
  note r' = condition_Inr [OF c'] and r = condition_Inr [OF c]
  have ch: "children cd = children cd'"
    using r r' by (auto intro: nth_equalityI)
  have lab: "label cd ! i = label cd' ! i
            \<or> (label cd' ! i \<noteq> [] \<and> hd (label cd' ! i) \<notin> {CHR ''O'', CHR ''A'', CHR ''T'', CHR ''F''}
                \<and> label cd ! i \<in> {''T'', ''F''})" if "i < length (label d)" for i
  proof -
    from r r' that have l: "conditioned_label a (label d ! i) (label cd ! i)"
      and l': "conditioned_label a' (label d ! i) (label cd' ! i)" by simp_all
    show ?thesis
    proof (cases "hd (label d ! i) \<notin> {CHR ''O'', CHR ''A'', CHR ''T'', CHR ''F''}")
      case False
      with l l' show ?thesis by (simp add: conditioned_label_def)
    next
      case True
      with l l' obtain x where x: "py_int (label d ! i) = Inr x"
        and e: "label cd ! i = (case a \<bar>x\<bar> of
                    Some ay \<Rightarrow> if (x > 0 \<and> ay) \<or> (x < 0 \<and> \<not> ay) then ''T'' else ''F''
                  | None \<Rightarrow> label d ! i)"
        and e': "label cd' ! i = (case a' \<bar>x\<bar> of
                    Some ay \<Rightarrow> if (x > 0 \<and> ay) \<or> (x < 0 \<and> \<not> ay) then ''T'' else ''F''
                  | None \<Rightarrow> label d ! i)"
        and ne: "label d ! i \<noteq> []"
        by (auto simp: conditioned_label_def)
      show ?thesis
      proof (cases "a' \<bar>x\<bar>")
        case (Some b)
        with sub have "a \<bar>x\<bar> = Some b" by simp
        with Some e e' show ?thesis by simp
      next
        case None
        with e' have "label cd' ! i = label d ! i" by simp
        with True ne e show ?thesis
          by (auto split: option.splits)
      qed
    qed
  qed
  from ch lab r r' show ?thesis
    by (simp add: more_conditioned_def)
qed

lemma necessary_property_loop: "necessary_property n d m = Inr np \<Longrightarrow> for_loop [1..m] (necessary_property_body n d) {} = Inr np"
  by (simp add: necessary_property_def necessary_property_body_def)

lemma necessary_property_body_Inr: 
  assumes b: "necessary_property_body n d j res = Inr res'"
  shows "\<exists>pos. condition d [j \<mapsto> False] = Inr pos \<and>
       (\<exists>neg. condition d [j \<mapsto> True] = Inr neg \<and>
       (\<exists>sp. is_satisfiable n pos 0 = Inr sp \<and>
       (\<exists>sn. is_satisfiable n neg 0 = Inr sn \<and>
          Inr (if \<not> sn then insert (- j) (if \<not> sp then insert j res else res)
               else (if \<not> sp then insert j res else res)) = (Inr res' :: error + int set))))"
  using b unfolding necessary_property_body_def err_bind_eq_Inr Let_def .

lemma unsat_flip_positive:
  assumes j1: "1 \<le> j" and pos: "condition d [j \<mapsto> False] = Inr pos"
      and sp: "is_satisfiable n pos 0 = Inr False"
  shows "unsat_flip n d j"
proof -
  have "\<bar>j\<bar> = j" "(j < 0) = False" "j \<noteq> 0" using j1 by simp_all
  then show ?thesis
    unfolding unsat_flip_def using pos sp by (simp only:) blast
qed

lemma unsat_flip_negative:
  assumes j1: "1 \<le> j" and neg: "condition d [j \<mapsto> True] = Inr neg"
      and sn: "is_satisfiable n neg 0 = Inr False"
  shows "unsat_flip n d (- j)"
proof -
  have "\<bar>- j\<bar> = j" "(- j < 0) = True" "- j \<noteq> 0" using j1 by simp_all
  then show ?thesis
    unfolding unsat_flip_def using neg sn by (simp only:) blast
qed

lemma necessary_property_step:
  assumes j: "j \<in> set [1..m]" and p: "\<forall>x \<in> res. unsat_flip n d x"
    and b: "necessary_property_body n d j res = Inr res'"
  shows "\<forall>x \<in> res'. unsat_flip n d x"
proof -
  from j have j1: "1 \<le> j" by simp
  from necessary_property_body_Inr [OF b] obtain pos neg sp sn where pos: "condition d [j \<mapsto> False] = Inr pos"
      and neg: "condition d [j \<mapsto> True] = Inr neg"
      and sp: "is_satisfiable n pos 0 = Inr sp" and sn: "is_satisfiable n neg 0 = Inr sn"
      and res0: "Inr (if \<not> sn then insert (- j) (if \<not> sp then insert j res else res)
               else (if \<not> sp then insert j res else res)) = (Inr res' :: error + int set)"
    by (elim exE conjE)
  from res0 have res': "res' = (if \<not> sn then insert (- j) (if \<not> sp then insert j res else res)
                        else (if \<not> sp then insert j res else res))"
    by (simp only: sum.inject)
  have a: "unsat_flip n d j" if "\<not> sp"
    using unsat_flip_positive [OF j1 pos] sp that by simp
  have b: "unsat_flip n d (- j)" if "\<not> sn"
    using unsat_flip_negative [OF j1 neg] sn that by simp
  show ?thesis
    unfolding res' using p a b by auto
qed

lemma necessary_property_unsat:
  assumes "necessary_property n d m = Inr np" and "x \<in> np"
  shows "unsat_flip n d x"
proof -
  have "\<forall>x \<in> np. unsat_flip n d x"
  proof (rule for_loop_partial [where P = "\<lambda>res. \<forall>x \<in> res. unsat_flip n d x", OF necessary_property_loop [OF assms(1)]])
    show "\<forall>x \<in> {}. unsat_flip n d x" by simp
  next
    fix j res res'
    assume "j \<in> set [1..m]" "\<forall>x \<in> res. unsat_flip n d x" "necessary_property_body n d j res = Inr res'"
    then show "\<forall>x \<in> res'. unsat_flip n d x" by (rule necessary_property_step)
  qed
  with assms(2) show ?thesis by blast
qed

lemma flipped_assignment_member:
  assumes "np \<noteq> {}" and "0 \<notin> np"
  shows "\<exists>x \<in> np. flipped_assignment neg_last np \<bar>x\<bar> = Some (x < 0)"
proof -
  from assms obtain x where x: "x \<in> np" "x \<noteq> 0" by auto
  show ?thesis
  proof (cases "- x \<in> np")
    case False
    with x show ?thesis
      by (intro bexI [of _ x]) (auto simp: flipped_assignment_def abs_if)
  next
    case True
    define y where "y = (if neg_last \<bar>x\<bar> then - \<bar>x\<bar> else \<bar>x\<bar>)"
    have "y \<in> np" using x True by (auto simp: y_def abs_if)
    moreover have "flipped_assignment neg_last np \<bar>y\<bar> = Some (y < 0)"
      using x True by (auto simp: flipped_assignment_def y_def abs_if)
    ultimately show ?thesis by blast
  qed
qed

text \<open>
  The test of \<^verbatim>\<open>necessary_Reason\<close> never fails: each literal of the necessary
  property, flipped alone, leaves the circuit unsatisfiable, and flipping all of them
  conditions the circuit further. So whatever \<^verbatim>\<open>necessary_Reason\<close> returns is the
  necessary property.
\<close>

lemma necessary_Reason_is_property:
  assumes "necessary_Reason neg_last n d m = Inr r"
  shows "necessary_property n d m = Inr r"
proof -
  from assms obtain np cd sat where np: "necessary_property n d m = Inr np"
    and cd: "condition d (flipped_assignment neg_last np) = Inr cd"
    and sat: "is_satisfiable n cd 0 = Inr sat"
    and r: "r = (if \<not> sat then np else {})"
    by (auto simp: necessary_Reason_def err_bind_eq_Inr Let_def)
  have "r = np"
  proof (cases "np = {} \<or> \<not> sat")
    case True
    with r show ?thesis by auto
  next
    case False
    then have ne: "np \<noteq> {}" and t: "is_satisfiable n cd 0 = Inr True"
      using sat by auto
    have "0 \<notin> np" using necessary_property_unsat [OF np, of 0] by (auto simp: unsat_flip_def)
    from flipped_assignment_member [OF ne this] obtain x where x: "x \<in> np"
      and ax: "flipped_assignment neg_last np \<bar>x\<bar> = Some (x < 0)" by blast
    from necessary_property_unsat [OF np x] obtain cd' where
      cd': "condition d [\<bar>x\<bar> \<mapsto> x < 0] = Inr cd'" and f: "is_satisfiable n cd' 0 = Inr False"
      unfolding unsat_flip_def by (elim exE conjE)
    have "more_conditioned cd' cd"
      by (rule conditioned_more [OF cd' cd]) (use ax in \<open>auto split: if_splits\<close>)
    from is_satisfiable_mono [OF this t] f show ?thesis by simp
  qed
  with np show ?thesis by simp
qed

text \<open>
  C4. \<^verbatim>\<open>necessary_Reason\<close> builds the assignment that flips every literal of the
  necessary property, where the claim takes the assignment the property implies.
  The decision circuit \<open>filtered_example\<close> has the two sufficient reasons \<open>{1, 2}\<close> and
  \<open>{2, 3}\<close> and the necessary property \<open>{2}\<close>, which is not a sufficient reason: there
  is no necessary reason. The circuit conditioned on \<open>2 = true\<close> is satisfiable, so the
  claim gives the empty set; the code, which conditions on \<open>2 = false\<close>, returns
  \<open>{2}\<close>. Likewise for the conjunction of \<open>1\<close> with the disjunction of \<open>2\<close> and \<open>3\<close>.
  By \<open>necessary_Reason_is_property\<close> the code never returns the empty set for a
  necessary property that is not empty.
\<close>

theorem necessary_Reason_without_reason:
  "Pi 5 filtered_example 0 = Inr [{1, 2}, {2, 3}]
   \<and> necessary_property 5 filtered_example 3 = Inr {2}
   \<and> necessary_Reason neg_last_always 5 filtered_example 3 = Inr {2}
   \<and> condition filtered_example [2 \<mapsto> True] =
       Inr \<lparr>children = [[1, 2, 3], [4, 5], [6, 7], [5, 7], [], [], [], []],
            label = [''O1'', ''A'', ''A'', ''A'', ''1'', ''T'', ''F'', ''3'']\<rparr>
   \<and> is_satisfiable 5
         \<lparr>children = [[1, 2, 3], [4, 5], [6, 7], [5, 7], [], [], [], []],
          label = [''O1'', ''A'', ''A'', ''A'', ''1'', ''T'', ''F'', ''3'']\<rparr> 0 = Inr True
   \<and> Pi 5 disjunction_example 0 = Inr [{1, 2}, {1, 3}]
   \<and> necessary_property 5 disjunction_example 3 = Inr {1}
   \<and> necessary_Reason neg_last_always 5 disjunction_example 3 = Inr {1}"
  by code_simp

end
